theory Spec2Isabelle
  imports Main "HOL-Library.Char_ord" "HOL-Library.List_Lexorder" "HOL-Library.Multiset"
    "HOL-Library.AList"
begin

section \<open>Library functions used by the program\<close>

text \<open>
  Go strings are byte sequences; \<open>string\<close> is a list of 8-bit characters, \<open>length\<close>
  is Go's \<open>len\<close>, and \<open><\<close> on strings (lexicographic, by byte value) is Go's \<open><\<close>.
  The functions of this section follow the Go standard library (\<open>strings\<close>, \<open>path\<close>,
  \<open>path/filepath\<close> on a system whose separator is \<open>/\<close>).
\<close>

definition HasPrefix :: "string \<Rightarrow> string \<Rightarrow> bool" where
  "HasPrefix s pre = (take (length pre) s = pre)"

definition HasSuffix :: "string \<Rightarrow> string \<Rightarrow> bool" where
  "HasSuffix s suf = (length suf \<le> length s \<and> drop (length s - length suf) s = suf)"

text \<open>\<open>strings.Contains\<close>: \<open>substr\<close> occurs somewhere in \<open>s\<close> as a contiguous run of bytes.\<close>

fun Contains :: "string \<Rightarrow> string \<Rightarrow> bool" where
  "Contains [] substr = (substr = [])"
| "Contains (c # s) substr = (HasPrefix (c # s) substr \<or> Contains s substr)"

text \<open>
  \<open>strings.Split\<close> for a separator of one byte (the program only splits at \<open>"/"\<close>):
  the pieces between the separators, empty pieces included; never the empty list.
\<close>

fun Split :: "string \<Rightarrow> char \<Rightarrow> string list" where
  "Split [] sep = [[]]"
| "Split (c # s) sep =
     (if c = sep then [] # Split s sep
      else (case Split s sep of [] \<Rightarrow> [[c]] | w # ws \<Rightarrow> (c # w) # ws))"

text \<open>\<open>strings.Join\<close>.\<close>

fun JoinWith :: "string list \<Rightarrow> string \<Rightarrow> string" where
  "JoinWith [] sep = []"
| "JoinWith [e] sep = e"
| "JoinWith (e # es) sep = e @ sep @ JoinWith es sep"

text \<open>\<open>strings.Trim\<close> for a cutset of one byte: that byte is removed from both ends.\<close>

definition Trim :: "string \<Rightarrow> char \<Rightarrow> string" where
  "Trim s c = rev (dropWhile (\<lambda>x. x = c) (rev (dropWhile (\<lambda>x. x = c) s)))"

text \<open>
  \<open>path.Clean\<close>, element by element: empty elements and \<open>.\<close> are dropped, \<open>..\<close>
  removes the element before it when there is one that is not itself \<open>..\<close>, is dropped
  at the root of a rooted path and is kept otherwise; the empty result is \<open>.\<close>. The
  elements kept so far are held in reverse.
\<close>

definition cleanStep :: "bool \<Rightarrow> string list \<Rightarrow> string \<Rightarrow> string list" where
  "cleanStep rooted out e =
     (if e = [] \<or> e = ''.'' then out
      else if e = ''..'' then
        (case out of
           [] \<Rightarrow> if rooted then [] else [''..'']
         | t # rest \<Rightarrow> if t \<noteq> ''..'' then rest else ''..'' # out)
      else e # out)"

definition Clean :: "string \<Rightarrow> string" where
  "Clean p =
     (if p = [] then ''.''
      else
        let rooted = (hd p = CHR ''/'');
            out = rev (foldl (cleanStep rooted) [] (Split p (CHR ''/'')));
            res = (if rooted then ''/'' else []) @ JoinWith out ''/''
        in if res = [] then ''.'' else res)"

text \<open>
  \<open>path.Join\<close>: leading empty elements are ignored, the rest is joined by slashes and
  cleaned; when every element is empty the result is the empty string.
\<close>

definition Join :: "string list \<Rightarrow> string" where
  "Join elem =
     (let es = dropWhile (\<lambda>e. e = []) elem
      in if es = [] then [] else Clean (JoinWith es ''/''))"

text \<open>\<open>filepath.Base\<close>: the last element of the path, trailing slashes removed first.\<close>

definition Base :: "string \<Rightarrow> string" where
  "Base p =
     (if p = [] then ''.''
      else
        let q = rev (dropWhile (\<lambda>x. x = CHR ''/'') (rev p));
            b = rev (takeWhile (\<lambda>x. x \<noteq> CHR ''/'') (rev q))
        in if b = [] then ''/'' else b)"

text \<open>\<open>filepath.Ext\<close>: the suffix from the last dot of the last element, or empty.\<close>

fun extScan :: "string \<Rightarrow> string \<Rightarrow> string" where
  "extScan [] acc = []"
| "extScan (c # r) acc =
     (if c = CHR ''/'' then []
      else if c = CHR ''.'' then c # acc
      else extScan r (c # acc))"

definition Ext :: "string \<Rightarrow> string" where
  "Ext p = extScan (rev p) []"

text \<open>
  \<open>filepath.Match("*_test.go", name)\<close>: the star stands for any run of bytes without
  a separator, and the whole name has to be matched.
\<close>

definition isTestFile :: "string \<Rightarrow> bool" where
  "isTestFile name =
     (HasSuffix name ''_test.go'' \<and>
      CHR ''/'' \<notin> set (take (length name - length ''_test.go'') name))"

section \<open>The data model\<close>

text \<open>
  A \<open>*Package\<close> is \<open>None\<close> for nil and \<open>Some a\<close> for the object at address \<open>a\<close>.
  The heap is the list of the packages allocated so far; \<open>&Package{...}\<close> appends to
  it and yields the new index. A Go pointer that is not nil refers to an allocated
  object, so the addresses a program holds are below the length of the heap
  (\<open>allocated\<close> below); the theorems state this where they need it.
\<close>

type_synonym ptr = "nat option"

record Package =
  RelPath :: string
  Learned :: bool
  Dependencies :: "ptr list"
  Dependants :: "ptr list"
  Internal :: bool

text \<open>
  The package-level variables. The two maps are association lists read with
  \<open>map_of\<close> and written with \<open>AList.update\<close>; the order of \<open>pkgsByLocation\<close>
  stands for the order in which a \<open>range\<close> loop happens to visit the map, which Go leaves
  open, so a statement about all states is a statement about every such order.
  The writer \<open>outputWriter\<close> is not part of the state: the functions that print
  return the lines they hand to it, oldest first.
\<close>

record state =
  standardLibraryPath :: string
  vendorRelPath :: string
  pkgsByLocation :: "(string \<times> ptr) list"
  pkgsByDependencyDepth :: "(int \<times> ptr list) list"
  heap :: "Package list"

datatype panic = NilPointerDereference | SliceBoundsOutOfRange

definition new :: "Package \<Rightarrow> state \<Rightarrow> ptr \<times> state" where
  "new p s = (Some (length (heap s)), s\<lparr>heap := heap s @ [p]\<rparr>)"

definition zeroPackage :: Package where
  "zeroPackage =
     \<lparr>RelPath = [], Learned = False, Dependencies = [], Dependants = [], Internal = False\<rparr>"

section \<open>package.go\<close>

text \<open>
  \<open>NewPackage\<close> returns the pair \<open>(pkg, err)\<close> of the source, \<open>err\<close> being \<open>None\<close> for
  nil, together with the state it leaves; \<open>Inl\<close> is a run-time panic. The slice
  expression \<open>fullPath[n:]\<close> panics when \<open>n > len(fullPath)\<close>.
\<close>

definition NewPackage :: "state \<Rightarrow> string \<Rightarrow> panic + (ptr \<times> string option \<times> state)" where
  "NewPackage s fullPath =
     (if map_of (pkgsByLocation s) fullPath \<noteq> None then
        Inr (None, Some (''Package already loaded: '' @ fullPath), s)
      else if fullPath = standardLibraryPath s then
        (let (pkg, s1) = new zeroPackage s
         in Inr (pkg, None, s1\<lparr>pkgsByLocation := AList.update fullPath pkg (pkgsByLocation s1)\<rparr>))
      else if length fullPath < length (standardLibraryPath s @ ''/'') then
        Inl SliceBoundsOutOfRange
      else
        (let relPath = drop (length (standardLibraryPath s @ ''/'')) fullPath;
             internal = Contains relPath ''internal'';
             (pkg, s1) = new (zeroPackage\<lparr>RelPath := relPath, Internal := internal\<rparr>) s
         in Inr (pkg, None, s1\<lparr>pkgsByLocation := AList.update fullPath pkg (pkgsByLocation s1)\<rparr>)))"

definition IsVendor :: "state \<Rightarrow> Package \<Rightarrow> bool" where
  "IsVendor s pkg = (hd (Split (RelPath pkg) (CHR ''/'')) = vendorRelPath s)"

definition Name :: "state \<Rightarrow> Package \<Rightarrow> string" where
  "Name s pkg =
     (if IsVendor s pkg then Join (tl (Split (RelPath pkg) (CHR ''/'')))
      else RelPath pkg)"

definition Predeclared :: "state \<Rightarrow> Package \<Rightarrow> bool" where
  "Predeclared s pkg =
     (Name s pkg = ''builtin'' \<or> Name s pkg = ''C'' \<or> Name s pkg = ''unsafe'')"

text \<open>
  The three methods above read \<open>pkg.RelPath\<close> first, so they panic on a nil receiver;
  they are defined on the object and every caller below dereferences the pointer.

  \<open>sort.Sort\<close> is taken as a parameter \<open>srt\<close> that receives the \<open>Less\<close> of the list.
  \<open>Less\<close> is \<open>li[i].Name() < li[j].Name()\<close>; a sort of two or more elements compares
  every element at least once and so panics when the list holds nil, a shorter list is
  not compared at all.
\<close>

type_synonym sorter = "(ptr \<Rightarrow> ptr \<Rightarrow> bool) \<Rightarrow> ptr list \<Rightarrow> ptr list"

definition Less :: "state \<Rightarrow> ptr \<Rightarrow> ptr \<Rightarrow> bool" where
  "Less s p q = (Name s (heap s ! the p) < Name s (heap s ! the q))"

definition Sort :: "sorter \<Rightarrow> state \<Rightarrow> ptr list \<Rightarrow> panic + ptr list" where
  "Sort srt s li =
     (if 2 \<le> length li \<and> None \<in> set li then Inl NilPointerDereference
      else Inr (srt (Less s) li))"

text \<open>
  What the program relies on in \<open>sort.Sort\<close>: for a \<open>Less\<close> that compares keys, the
  result is a rearrangement of the list in ascending order of the keys. Nothing is
  assumed about the order of elements with equal keys.
\<close>

definition sortContract :: "sorter \<Rightarrow> bool" where
  "sortContract srt \<longleftrightarrow>
     (\<forall>(key :: ptr \<Rightarrow> string) li.
        mset (srt (\<lambda>p q. key p < key q) li) = mset li \<and>
        sorted (map key (srt (\<lambda>p q. key p < key q) li)))"

text \<open>
  The insertion sort of package \<open>sort\<close>, which \<open>sort.Sort\<close> runs on a slice of fewer
  than twelve elements: each element in turn is swapped to the left while it is less
  than its left neighbour. \<open>sink\<close> works on the reversed prefix.
\<close>

fun sink :: "(ptr \<Rightarrow> ptr \<Rightarrow> bool) \<Rightarrow> ptr \<Rightarrow> ptr list \<Rightarrow> ptr list" where
  "sink lt x [] = [x]"
| "sink lt x (y # r) = (if lt x y then y # sink lt x r else x # y # r)"

fun insertionSortFrom :: "(ptr \<Rightarrow> ptr \<Rightarrow> bool) \<Rightarrow> ptr list \<Rightarrow> ptr list \<Rightarrow> ptr list" where
  "insertionSortFrom lt r [] = rev r"
| "insertionSortFrom lt r (x # xs) = insertionSortFrom lt (sink lt x r) xs"

definition insertionSort :: sorter where
  "insertionSort lt li = insertionSortFrom lt [] li"

text \<open>
  \<open>makeUnique\<close>: the loop over the index \<open>i\<close>; \<open>i < len(*li)-1\<close> on Go's signed
  integers is \<open>i + 1 < length li\<close>, and \<open>append((*li)[:i], (*li)[i+1:]...)\<close> removes
  the element at \<open>i\<close>.
\<close>

function makeUniqueFrom :: "nat \<Rightarrow> ptr list \<Rightarrow> ptr list" where
  "makeUniqueFrom i li =
     (if i + 1 < length li then
        (if li ! i = li ! (i + 1) then makeUniqueFrom i (take i li @ drop (i + 1) li)
         else makeUniqueFrom (i + 1) li)
      else li)"
  by pat_completeness auto
termination
  by (relation "measure (\<lambda>(i, li). 2 * length li - i)") auto

declare makeUniqueFrom.simps [simp del]

definition makeUnique :: "ptr list \<Rightarrow> ptr list" where
  "makeUnique li = makeUniqueFrom 0 li"

definition setDependencies :: "nat \<Rightarrow> ptr list \<Rightarrow> state \<Rightarrow> state" where
  "setDependencies a li s = s\<lparr>heap := (heap s)[a := (heap s ! a)\<lparr>Dependencies := li\<rparr>]\<rparr>"

definition setDependants :: "nat \<Rightarrow> ptr list \<Rightarrow> state \<Rightarrow> state" where
  "setDependants a li s = s\<lparr>heap := (heap s)[a := (heap s ! a)\<lparr>Dependants := li\<rparr>]\<rparr>"

definition setLearned :: "nat \<Rightarrow> bool \<Rightarrow> state \<Rightarrow> state" where
  "setLearned a b s = s\<lparr>heap := (heap s)[a := (heap s ! a)\<lparr>Learned := b\<rparr>]\<rparr>"

definition DependsOn :: "sorter \<Rightarrow> state \<Rightarrow> ptr \<Rightarrow> ptr \<Rightarrow> panic + state" where
  "DependsOn srt s pkg dependency =
     (case pkg of
        None \<Rightarrow> Inl NilPointerDereference
      | Some a \<Rightarrow>
          (let s1 = setDependencies a (Dependencies (heap s ! a) @ [dependency]) s
           in case Sort srt s1 (Dependencies (heap s1 ! a)) of
                Inl e \<Rightarrow> Inl e
              | Inr li \<Rightarrow> Inr (setDependencies a (makeUnique li) s1)))"

text \<open>
  The two recursive methods take a bound \<open>n\<close> on the depth of nested calls and return
  \<open>None\<close> when the bound is used up, so a call that never returns is \<open>None\<close> for
  every bound. Go's \<open>int\<close> has 64 bits; a depth is at most the number of packages,
  so it is modelled by \<open>int\<close>.
\<close>

fun depthLoop :: "(ptr \<Rightarrow> (panic + int) option) \<Rightarrow> ptr list \<Rightarrow> int \<Rightarrow> (panic + int) option" where
  "depthLoop call [] depth = Some (Inr depth)"
| "depthLoop call (importedPkg # rest) depth =
     (case call importedPkg of
        None \<Rightarrow> None
      | Some (Inl e) \<Rightarrow> Some (Inl e)
      | Some (Inr importedPkgDepth) \<Rightarrow>
          depthLoop call rest
            (if importedPkgDepth \<ge> depth then importedPkgDepth + 1 else depth))"

fun DependencyDepth :: "nat \<Rightarrow> state \<Rightarrow> ptr \<Rightarrow> (panic + int) option" where
  "DependencyDepth 0 s pkg = None"
| "DependencyDepth (Suc n) s pkg =
     (case pkg of
        None \<Rightarrow> Some (Inl NilPointerDereference)
      | Some a \<Rightarrow>
          if Predeclared s (heap s ! a) \<or> Learned (heap s ! a) then Some (Inr (- 1))
          else depthLoop (\<lambda>p. DependencyDepth n s p) (Dependencies (heap s ! a)) 0)"

fun anyNonInternal :: "state \<Rightarrow> ptr list \<Rightarrow> panic + bool" where
  "anyNonInternal s [] = Inr False"
| "anyNonInternal s (dependant # rest) =
     (case dependant of
        None \<Rightarrow> Inl NilPointerDereference
      | Some b \<Rightarrow> if \<not> Internal (heap s ! b) then Inr True else anyNonInternal s rest)"

fun anyImported :: "(ptr \<Rightarrow> (panic + bool) option) \<Rightarrow> ptr list \<Rightarrow> (panic + bool) option" where
  "anyImported call [] = Some (Inr False)"
| "anyImported call (dependant # rest) =
     (case call dependant of
        None \<Rightarrow> None
      | Some (Inl e) \<Rightarrow> Some (Inl e)
      | Some (Inr True) \<Rightarrow> Some (Inr True)
      | Some (Inr False) \<Rightarrow> anyImported call rest)"

fun Imported :: "nat \<Rightarrow> state \<Rightarrow> ptr \<Rightarrow> (panic + bool) option" where
  "Imported 0 s pkg = None"
| "Imported (Suc n) s pkg =
     (case pkg of
        None \<Rightarrow> Some (Inl NilPointerDereference)
      | Some a \<Rightarrow>
          (case anyNonInternal s (Dependants (heap s ! a)) of
             Inl e \<Rightarrow> Some (Inl e)
           | Inr True \<Rightarrow> Some (Inr True)
           | Inr False \<Rightarrow> anyImported (\<lambda>p. Imported n s p) (Dependants (heap s ! a))))"

text \<open>
  \<open>Write\<close> returns the lines it hands to \<open>fmt.Fprintln\<close>; the writer buffers them,
  so the error of \<open>Fprintln\<close> is nil, and the byte count is used by no caller. A run
  that panics is \<open>Inl\<close> and keeps no lines. \<open>itoa\<close> is the verb \<open>%d\<close>, \<open>tab\<close> the
  \<open>\t\<close> of the row formats.
\<close>

fun natToDec :: "nat \<Rightarrow> string" where
  "natToDec n =
     (if n < 10 then [char_of (48 + n)]
      else natToDec (n div 10) @ [char_of (48 + n mod 10)])"

declare natToDec.simps [simp del]

definition itoa :: "int \<Rightarrow> string" where
  "itoa i = (if i < 0 then ''-'' @ natToDec (nat (- i)) else natToDec (nat i))"

definition tab :: string where
  "tab = [CHR 0x09]"

definition unlearnedIndicator :: string where
  "unlearnedIndicator = ''*''"

definition noDependenciesRow :: "string \<Rightarrow> int \<Rightarrow> string \<Rightarrow> string" where
  "noDependenciesRow name depth flag = name @ tab @ itoa depth @ tab @ flag @ tab"

definition firstRow :: "string \<Rightarrow> int \<Rightarrow> string \<Rightarrow> string \<Rightarrow> string" where
  "firstRow name depth flag dep = name @ tab @ itoa depth @ tab @ flag @ tab @ dep @ tab"

definition subsequentRows :: "string \<Rightarrow> string" where
  "subsequentRows dep = tab @ tab @ tab @ dep @ tab"

fun writeRows :: "state \<Rightarrow> (string \<Rightarrow> string) \<Rightarrow> nat \<Rightarrow> ptr list \<Rightarrow> panic + string list" where
  "writeRows s first i [] = Inr []"
| "writeRows s first i (dependency # rest) =
     (case dependency of
        None \<Rightarrow> Inl NilPointerDereference
      | Some b \<Rightarrow>
          (let d = heap s ! b;
               dependencyName =
                 (if \<not> Learned d \<and> \<not> Predeclared s d then Name s d @ '' '' @ unlearnedIndicator
                  else Name s d);
               rowFormat = (if i = 0 then first dependencyName else subsequentRows dependencyName)
           in case writeRows s first (i + 1) rest of
                Inl e \<Rightarrow> Inl e
              | Inr rows \<Rightarrow> Inr (rowFormat # rows)))"

definition Write :: "nat \<Rightarrow> state \<Rightarrow> ptr \<Rightarrow> (panic + string list) option" where
  "Write n s pkg =
     (case Imported n s pkg of
        None \<Rightarrow> None
      | Some (Inl e) \<Rightarrow> Some (Inl e)
      | Some (Inr imported) \<Rightarrow>
          (case DependencyDepth n s pkg of
             None \<Rightarrow> None
           | Some (Inl e) \<Rightarrow> Some (Inl e)
           | Some (Inr dependancyDepth) \<Rightarrow>
               (case pkg of
                  None \<Rightarrow> Some (Inl NilPointerDereference)
                | Some a \<Rightarrow>
                    (let p = heap s ! a
                     in if Internal p \<and> \<not> imported then Some (Inr [])
                        else
                          (let importFlag = (if \<not> imported then ''unimported'' else ''imported'')
                           in if length (Dependencies p) = 0 then
                                Some (Inr [noDependenciesRow (Name s p) dependancyDepth importFlag])
                              else
                                Some (writeRows s (firstRow (Name s p) dependancyDepth importFlag) 0
                                        (Dependencies p)))))))"

section \<open>dependencies.go\<close>

text \<open>
  \<open>regexp.MatchString(`golang_org/x/\w*`, importPath)\<close> looks for a match anywhere in
  the string, and \<open>\w*\<close> matches the empty string: it is true exactly when
  \<open>golang_org/x/\<close> occurs in \<open>importPath\<close>.
\<close>

definition pkgFromImportPath :: "state \<Rightarrow> string \<Rightarrow> ptr" where
  "pkgFromImportPath s importPath =
     (let fullPath =
        (if Contains importPath ''golang_org/x/''
         then Join [standardLibraryPath s, ''vendor'', importPath]
         else Join [standardLibraryPath s, importPath])
      in case map_of (pkgsByLocation s) fullPath of None \<Rightarrow> None | Some pkg \<Rightarrow> pkg)"

text \<open>
  The body of the loop of \<open>scanFileForDependencies\<close> once the import is resolved:
  \<open>pkg.DependsOn(importedPkg)\<close>, then the append to \<open>importedPkg.Dependants\<close>.
\<close>

definition addEdge :: "sorter \<Rightarrow> state \<Rightarrow> ptr \<Rightarrow> ptr \<Rightarrow> panic + state" where
  "addEdge srt s pkg importedPkg =
     (case DependsOn srt s pkg importedPkg of
        Inl e \<Rightarrow> Inl e
      | Inr s1 \<Rightarrow>
          (case importedPkg of
             None \<Rightarrow> Inl NilPointerDereference
           | Some b \<Rightarrow> Inr (setDependants b (Dependants (heap s1 ! b) @ [pkg]) s1)))"

text \<open>The loop over \<open>astFile.Imports\<close>; each element is the literal \<open>Path.Value\<close>, quotes included.\<close>

fun scanImports :: "sorter \<Rightarrow> state \<Rightarrow> ptr \<Rightarrow> string list \<Rightarrow> panic + state" where
  "scanImports srt s pkg [] = Inr s"
| "scanImports srt s pkg (pathValue # rest) =
     (case addEdge srt s pkg (pkgFromImportPath s (Trim pathValue (CHR 0x22))) of
        Inl e \<Rightarrow> Inl e
      | Inr s1 \<Rightarrow> scanImports srt s1 pkg rest)"

text \<open>
  What \<open>parser.ParseFile\<close> gives for a path: an error, or the package name of the file
  (\<open>None\<close> when \<open>astFile.Name\<close> is nil) and the literals of its import declarations.
  The file system and the parser are the parameter \<open>parseFile\<close>. The result is the
  \<open>err\<close> of the source (\<open>None\<close> for nil) and the state.
\<close>

datatype parsed = ParseError string | AstFile "string option" "string list"

definition scanFileForDependencies ::
  "sorter \<Rightarrow> (string \<Rightarrow> parsed) \<Rightarrow> state \<Rightarrow> string \<Rightarrow> ptr \<Rightarrow> panic + (string option \<times> state)" where
  "scanFileForDependencies srt parseFile s path pkg =
     (if Ext path \<noteq> ''.go'' then Inr (None, s)
      else if isTestFile (Base path) then Inr (None, s)
      else
        (case parseFile path of
           ParseError err \<Rightarrow> Inr (Some err, s)
         | AstFile None imports \<Rightarrow> Inr (None, s)
         | AstFile (Some name) imports \<Rightarrow>
             (case pkg of
                None \<Rightarrow> Inl NilPointerDereference
              | Some a \<Rightarrow>
                  if name \<noteq> Base (Name s (heap s ! a)) then Inr (None, s)
                  else
                    (case scanImports srt s pkg imports of
                       Inl e \<Rightarrow> Inl e
                     | Inr s1 \<Rightarrow> Inr (None, s1)))))"

text \<open>\<open>loadLearnedPkgs\<close> on the lines of the input file.\<close>

fun loadLearnedPkgs :: "state \<Rightarrow> string list \<Rightarrow> state" where
  "loadLearnedPkgs s [] = s"
| "loadLearnedPkgs s (line # rest) =
     (case pkgFromImportPath s line of
        None \<Rightarrow> loadLearnedPkgs s rest
      | Some a \<Rightarrow> loadLearnedPkgs (setLearned a True s) rest)"

text \<open>The loop of \<open>main\<close> over \<open>pkgsByLocation\<close> that sorts and deduplicates \<open>Dependants\<close>.\<close>

fun sortDependants :: "sorter \<Rightarrow> state \<Rightarrow> ptr list \<Rightarrow> panic + state" where
  "sortDependants srt s [] = Inr s"
| "sortDependants srt s (pkg # rest) =
     (case pkg of
        None \<Rightarrow> Inl NilPointerDereference
      | Some a \<Rightarrow>
          (case Sort srt s (Dependants (heap s ! a)) of
             Inl e \<Rightarrow> Inl e
           | Inr li \<Rightarrow> sortDependants srt (setDependants a (makeUnique li) s) rest))"

text \<open>
  \<open>sortByDependencyDepth\<close>: the first loop files every package under its depth, the
  second sorts every bucket. \<open>li.Sort()\<close> sorts the array that the slice stored in the
  map shares, so the map holds the sorted bucket afterwards.
\<close>

fun bucketLoop :: "nat \<Rightarrow> state \<Rightarrow> ptr list \<Rightarrow> (panic + state) option" where
  "bucketLoop n s [] = Some (Inr s)"
| "bucketLoop n s (pkg # rest) =
     (case DependencyDepth n s pkg of
        None \<Rightarrow> None
      | Some (Inl e) \<Rightarrow> Some (Inl e)
      | Some (Inr depth) \<Rightarrow>
          (let li = (case map_of (pkgsByDependencyDepth s) depth of None \<Rightarrow> [] | Some li \<Rightarrow> li)
           in bucketLoop n
                (s\<lparr>pkgsByDependencyDepth :=
                     AList.update depth (li @ [pkg]) (pkgsByDependencyDepth s)\<rparr>) rest))"

fun sortLoop :: "sorter \<Rightarrow> state \<Rightarrow> (int \<times> ptr list) list \<Rightarrow> panic + (int \<times> ptr list) list" where
  "sortLoop srt s [] = Inr []"
| "sortLoop srt s ((depth, li) # rest) =
     (case Sort srt s li of
        Inl e \<Rightarrow> Inl e
      | Inr li1 \<Rightarrow>
          (case sortLoop srt s rest of
             Inl e \<Rightarrow> Inl e
           | Inr rest1 \<Rightarrow> Inr ((depth, li1) # rest1)))"

definition sortByDependencyDepth :: "nat \<Rightarrow> sorter \<Rightarrow> state \<Rightarrow> (panic + state) option" where
  "sortByDependencyDepth n srt s =
     (case bucketLoop n s (map snd (pkgsByLocation s)) of
        None \<Rightarrow> None
      | Some (Inl e) \<Rightarrow> Some (Inl e)
      | Some (Inr s1) \<Rightarrow>
          (case sortLoop srt s1 (pkgsByDependencyDepth s1) of
             Inl e \<Rightarrow> Some (Inl e)
           | Inr buckets \<Rightarrow> Some (Inr (s1\<lparr>pkgsByDependencyDepth := buckets\<rparr>))))"

text \<open>\<open>printPkgs\<close>: the inner loop over one bucket, and the loop over the depths from 0.\<close>

fun writeAll :: "nat \<Rightarrow> state \<Rightarrow> ptr list \<Rightarrow> (panic + string list) option" where
  "writeAll n s [] = Some (Inr [])"
| "writeAll n s (pkg # rest) =
     (case Write n s pkg of
        None \<Rightarrow> None
      | Some (Inl e) \<Rightarrow> Some (Inl e)
      | Some (Inr rows) \<Rightarrow>
          (case writeAll n s rest of
             None \<Rightarrow> None
           | Some (Inl e) \<Rightarrow> Some (Inl e)
           | Some (Inr rows1) \<Rightarrow> Some (Inr (rows @ rows1))))"

function printLoop :: "nat \<Rightarrow> state \<Rightarrow> int \<Rightarrow> (panic + string list) option" where
  "printLoop n s depth =
     (case map_of (pkgsByDependencyDepth s) depth of
        None \<Rightarrow> Some (Inr [])
      | Some pkgLi \<Rightarrow>
          (case writeAll n s pkgLi of
             None \<Rightarrow> None
           | Some (Inl e) \<Rightarrow> Some (Inl e)
           | Some (Inr rows) \<Rightarrow>
               (case printLoop n s (depth + 1) of
                  None \<Rightarrow> None
                | Some (Inl e) \<Rightarrow> Some (Inl e)
                | Some (Inr rows1) \<Rightarrow> Some (Inr (rows @ rows1)))))"
  by pat_completeness auto
termination
proof (relation "measure (\<lambda>(n, s, depth). card {k \<in> fst ` set (pkgsByDependencyDepth s). depth \<le> k})")
  show "wf (measure (\<lambda>(n, s, depth). card {k \<in> fst ` set (pkgsByDependencyDepth s). depth \<le> k}))"
    by simp
next
  fix n :: nat and s :: state and depth :: int and pkgLi x2 rows
  assume "map_of (pkgsByDependencyDepth s) depth = Some pkgLi"
  then have mem: "depth \<in> fst ` set (pkgsByDependencyDepth s)"
    by (metis map_of_eq_None_iff option.distinct(1))
  have "depth \<in> {k \<in> fst ` set (pkgsByDependencyDepth s). depth \<le> k}"
    and "depth \<notin> {k \<in> fst ` set (pkgsByDependencyDepth s). depth + 1 \<le> k}"
    and "{k \<in> fst ` set (pkgsByDependencyDepth s). depth + 1 \<le> k}
      \<subseteq> {k \<in> fst ` set (pkgsByDependencyDepth s). depth \<le> k}"
    using mem by auto
  then have "{k \<in> fst ` set (pkgsByDependencyDepth s). depth + 1 \<le> k}
      \<subset> {k \<in> fst ` set (pkgsByDependencyDepth s). depth \<le> k}"
    by blast
  then have "card {k \<in> fst ` set (pkgsByDependencyDepth s). depth + 1 \<le> k}
      < card {k \<in> fst ` set (pkgsByDependencyDepth s). depth \<le> k}"
    by (intro psubset_card_mono) auto
  then show "((n, s, depth + 1), (n, s, depth))
      \<in> measure (\<lambda>(n, s, depth). card {k \<in> fst ` set (pkgsByDependencyDepth s). depth \<le> k})"
    by simp
qed

declare printLoop.simps [simp del]

definition printPkgs :: "nat \<Rightarrow> state \<Rightarrow> (panic + string list) option" where
  "printPkgs n s = printLoop n s 0"

section \<open>Well-formed states and example states\<close>

text \<open>
  Every key of the registry is the root or long enough for the slice expression of
  \<open>NewPackage\<close>. The empty registry is so, and \<open>NewPackage\<close> keeps it so.
\<close>

definition registryWellFormed :: "state \<Rightarrow> bool" where
  "registryWellFormed s =
     list_all (\<lambda>k. k = standardLibraryPath s \<or> length (standardLibraryPath s) + 1 \<le> length k)
       (map fst (pkgsByLocation s))"

definition exampleState :: state where
  "exampleState =
     \<lparr>standardLibraryPath = ''/go'', vendorRelPath = ''vendor'', pkgsByLocation = [],
      pkgsByDependencyDepth = [], heap = []\<rparr>"

definition registeredState :: state where
  "registeredState =
     \<lparr>standardLibraryPath = ''/go'', vendorRelPath = ''vendor'',
      pkgsByLocation = [(''/go/a'', Some 0)], pkgsByDependencyDepth = [],
      heap = [\<lparr>RelPath = ''a'', Learned = False, Dependencies = [], Dependants = [],
               Internal = False\<rparr>]\<rparr>"

text \<open>
  In a closed heap every element of a \<open>Dependencies\<close> or \<open>Dependants\<close> list is the
  address of an allocated package (so none is nil). The two graphs have an edge from
  \<open>a\<close> to \<open>b\<close> when \<open>b\<close> is in the \<open>Dependencies\<close>, respectively the \<open>Dependants\<close>,
  of \<open>a\<close>.
\<close>

definition allocated :: "state \<Rightarrow> ptr \<Rightarrow> bool" where
  "allocated s p = (case p of None \<Rightarrow> False | Some b \<Rightarrow> b < length (heap s))"

definition heapClosed :: "state \<Rightarrow> bool" where
  "heapClosed s =
     list_all (\<lambda>p. list_all (allocated s) (Dependencies p) \<and> list_all (allocated s) (Dependants p))
       (heap s)"

definition edges :: "(Package \<Rightarrow> ptr list) \<Rightarrow> state \<Rightarrow> (nat \<times> nat) list" where
  "edges field s =
     concat (map (\<lambda>a. map (\<lambda>b. (a, b)) (List.map_filter id (field (heap s ! a))))
       [0..<length (heap s)])"

definition dependencyGraph :: "state \<Rightarrow> (nat \<times> nat) set" where
  "dependencyGraph s = set (edges Dependencies s)"

definition dependantGraph :: "state \<Rightarrow> (nat \<times> nat) set" where
  "dependantGraph s = set (edges Dependants s)"

text \<open>
  A call returns \<open>d\<close> when it does so for every bound on the nesting from some bound on.
\<close>

definition DependencyDepthReturns :: "state \<Rightarrow> ptr \<Rightarrow> int \<Rightarrow> bool" where
  "DependencyDepthReturns s p d \<longleftrightarrow> (\<exists>n. \<forall>m\<ge>n. DependencyDepth m s p = Some (Inr d))"

definition ImportedReturns :: "state \<Rightarrow> ptr \<Rightarrow> bool \<Rightarrow> bool" where
  "ImportedReturns s p b \<longleftrightarrow> (\<exists>n. \<forall>m\<ge>n. Imported m s p = Some (Inr b))"

text \<open>
  A path of one or more dependants edges leads from \<open>a\<close> to a package that is not
  internal.
\<close>

definition reachesNonInternal :: "state \<Rightarrow> nat \<Rightarrow> bool" where
  "reachesNonInternal s a \<longleftrightarrow> (\<exists>q. (a, q) \<in> (dependantGraph s)\<^sup>+ \<and> \<not> Internal (heap s ! q))"

definition terminal :: "state \<Rightarrow> Package \<Rightarrow> bool" where
  "terminal s pkg \<longleftrightarrow> Learned pkg \<or> Predeclared s pkg"

text \<open>
  An example graph: \<open>a\<close> imports \<open>b\<close> and the vendored \<open>golang_org/x/net\<close>, both of
  which import \<open>unsafe\<close>; \<open>internal/x\<close> imports nothing and nothing imports it.
\<close>

definition graphState :: state where
  "graphState =
     \<lparr>standardLibraryPath = ''/go'', vendorRelPath = ''vendor'',
      pkgsByLocation =
        [(''/go/a'', Some 0), (''/go/b'', Some 1), (''/go/vendor/golang_org/x/net'', Some 2),
         (''/go/unsafe'', Some 3), (''/go/internal/x'', Some 4)],
      pkgsByDependencyDepth = [],
      heap =
        [\<lparr>RelPath = ''a'', Learned = False, Dependencies = [Some 1, Some 2],
           Dependants = [], Internal = False\<rparr>,
         \<lparr>RelPath = ''b'', Learned = False, Dependencies = [Some 3],
           Dependants = [Some 0], Internal = False\<rparr>,
         \<lparr>RelPath = ''vendor/golang_org/x/net'', Learned = False, Dependencies = [Some 3],
           Dependants = [Some 0], Internal = False\<rparr>,
         \<lparr>RelPath = ''unsafe'', Learned = False, Dependencies = [],
           Dependants = [Some 1, Some 2], Internal = False\<rparr>,
         \<lparr>RelPath = ''internal/x'', Learned = False, Dependencies = [],
           Dependants = [], Internal = True\<rparr>]\<rparr>"

text \<open>A package that imports itself.\<close>

definition selfImportState :: state where
  "selfImportState =
     \<lparr>standardLibraryPath = ''/go'', vendorRelPath = ''vendor'',
      pkgsByLocation = [(''/go/a'', Some 0)], pkgsByDependencyDepth = [],
      heap = [\<lparr>RelPath = ''a'', Learned = False, Dependencies = [Some 0],
               Dependants = [Some 0], Internal = True\<rparr>]\<rparr>"

text \<open>
  A source file of package \<open>a\<close> whose only import is \<open>"fmt"\<close>, and one whose only
  import is \<open>"b"\<close>; \<open>quoted\<close> writes the literal of an import path.
\<close>

definition quoted :: "string \<Rightarrow> string" where
  "quoted p = [CHR 0x22] @ p @ [CHR 0x22]"

definition importsFmt :: "string \<Rightarrow> parsed" where
  "importsFmt path = AstFile (Some ''a'') [quoted ''fmt'']"

definition importsB :: "string \<Rightarrow> parsed" where
  "importsB path = AstFile (Some ''a'') [quoted ''b'']"

text \<open>Two registered packages \<open>a\<close> and \<open>b\<close> without edges.\<close>

definition pairState :: state where
  "pairState =
     \<lparr>standardLibraryPath = ''/go'', vendorRelPath = ''vendor'',
      pkgsByLocation = [(''/go/a'', Some 0), (''/go/b'', Some 1)], pkgsByDependencyDepth = [],
      heap =
        [\<lparr>RelPath = ''a'', Learned = False, Dependencies = [], Dependants = [],
           Internal = False\<rparr>,
         \<lparr>RelPath = ''b'', Learned = False, Dependencies = [], Dependants = [],
           Internal = False\<rparr>]\<rparr>"

text \<open>
  The order and the uniqueness of the edge lists. \<open>nameOf\<close> is the display name of the
  package a pointer refers to; a list is normalised when its names ascend and no pointer
  occurs in it twice. A sequence of edge additions is a list of pairs, the owning package
  and the imported one, each added as the loop of \<open>scanFileForDependencies\<close> does.
\<close>

definition nameOf :: "state \<Rightarrow> ptr \<Rightarrow> string" where
  "nameOf s p = Name s (heap s ! the p)"

definition normalised :: "state \<Rightarrow> ptr list \<Rightarrow> bool" where
  "normalised s li \<longleftrightarrow> sorted (map (nameOf s) li) \<and> distinct li"

definition distinctNames :: "state \<Rightarrow> bool" where
  "distinctNames s = distinct (map (Name s) (heap s))"

definition freshEdges :: "state \<Rightarrow> bool" where
  "freshEdges s = list_all (\<lambda>p. Dependencies p = [] \<and> Dependants p = []) (heap s)"

definition registryClosed :: "state \<Rightarrow> bool" where
  "registryClosed s = list_all (allocated s) (map snd (pkgsByLocation s))"

fun addEdges :: "sorter \<Rightarrow> state \<Rightarrow> (ptr \<times> ptr) list \<Rightarrow> panic + state" where
  "addEdges srt s [] = Inr s"
| "addEdges srt s ((pkg, importedPkg) # rest) =
     (case addEdge srt s pkg importedPkg of
        Inl e \<Rightarrow> Inl e
      | Inr s1 \<Rightarrow> addEdges srt s1 rest)"

text \<open>\<open>pairState\<close> after one, and after two, files of \<open>a\<close> that import \<open>b\<close> were scanned.\<close>

definition pairStateScanned :: state where
  "pairStateScanned = setDependants 1 [Some 0] (setDependencies 0 [Some 1] pairState)"

definition pairStateScannedTwice :: state where
  "pairStateScannedTwice = setDependants 1 [Some 0, Some 0] pairStateScanned"

text \<open>\<open>graphState\<close> after \<open>sortByDependencyDepth\<close>.\<close>

definition graphStateBucketed :: state where
  "graphStateBucketed =
     graphState\<lparr>pkgsByDependencyDepth :=
       [(1, [Some 0]), (0, [Some 1, Some 2, Some 4]), (- 1, [Some 3])]\<rparr>"

text \<open>
  Package \<open>a\<close> and two packages with the display name \<open>x\<close>, one of them vendored.
\<close>

definition sameNameState :: state where
  "sameNameState =
     \<lparr>standardLibraryPath = ''/go'', vendorRelPath = ''vendor'',
      pkgsByLocation = [(''/go/a'', Some 0), (''/go/x'', Some 1), (''/go/vendor/x'', Some 2)],
      pkgsByDependencyDepth = [],
      heap =
        [\<lparr>RelPath = ''a'', Learned = False, Dependencies = [], Dependants = [],
           Internal = False\<rparr>,
         \<lparr>RelPath = ''x'', Learned = False, Dependencies = [], Dependants = [],
           Internal = False\<rparr>,
         \<lparr>RelPath = ''vendor/x'', Learned = False, Dependencies = [], Dependants = [],
           Internal = False\<rparr>]\<rparr>"

text \<open>
  The rows of one package as the report is described: nothing for an internal package
  that is not imported; otherwise the name, the depth and the flag, alone when the
  package has no dependencies, else together with its first dependency and followed
  by one row for each further dependency. A dependency that is neither learned nor
  predeclared carries the marker. \<open>imported\<close> and \<open>depth\<close> are the values of the two
  analyses for the package.
\<close>

definition dependencyLabel :: "state \<Rightarrow> ptr \<Rightarrow> string" where
  "dependencyLabel s p =
     (if Learned (heap s ! the p) \<or> Predeclared s (heap s ! the p) then nameOf s p
      else nameOf s p @ '' *'')"

definition packageRows :: "state \<Rightarrow> bool \<Rightarrow> int \<Rightarrow> ptr \<Rightarrow> string list" where
  "packageRows s imported depth p =
     (if Internal (heap s ! the p) \<and> \<not> imported then []
      else
        (case Dependencies (heap s ! the p) of
           [] \<Rightarrow>
             [nameOf s p @ tab @ itoa depth @ tab @
              (if imported then ''imported'' else ''unimported'') @ tab]
         | d # ds \<Rightarrow>
             (nameOf s p @ tab @ itoa depth @ tab @
              (if imported then ''imported'' else ''unimported'') @ tab @
              dependencyLabel s d @ tab)
             # map (\<lambda>e. tab @ tab @ tab @ dependencyLabel s e @ tab) ds))"

text \<open>The registered packages of depth \<open>d\<close> under a depth assignment \<open>D\<close>, in registry order.\<close>

definition registeredAtDepth :: "state \<Rightarrow> (nat \<Rightarrow> int) \<Rightarrow> int \<Rightarrow> ptr list" where
  "registeredAtDepth s D d = filter (\<lambda>p. D (the p) = d) (map snd (pkgsByLocation s))"

text \<open>The packages of the buckets \<open>0, \<dots>, k - 1\<close>, bucket after bucket.\<close>

definition bucketsUpTo :: "state \<Rightarrow> nat \<Rightarrow> ptr list" where
  "bucketsUpTo s k = concat (map (\<lambda>d. the (map_of (pkgsByDependencyDepth s) (int d))) [0..<k])"

section \<open>Strings\<close>

lemma HasPrefix_iff: "HasPrefix s pre \<longleftrightarrow> (\<exists>v. s = pre @ v)"
  unfolding HasPrefix_def
  by (metis append_eq_conv_conj append_take_drop_id)

lemma Contains_iff: "Contains s sub \<longleftrightarrow> (\<exists>u v. s = u @ sub @ v)"
proof (induction s)
  case Nil
  show ?case by auto
next
  case (Cons c s)
  show ?case
  proof
    assume "Contains (c # s) sub"
    then consider "HasPrefix (c # s) sub" | "Contains s sub" by auto
    then show "\<exists>u v. c # s = u @ sub @ v"
    proof cases
      case 1
      then obtain v where "c # s = sub @ v" by (auto simp: HasPrefix_iff)
      then have "c # s = [] @ sub @ v" by simp
      then show ?thesis by blast
    next
      case 2
      then obtain u v where "s = u @ sub @ v" using Cons.IH by blast
      then have "c # s = (c # u) @ sub @ v" by simp
      then show ?thesis by blast
    qed
  next
    assume "\<exists>u v. c # s = u @ sub @ v"
    then obtain u v where uv: "c # s = u @ sub @ v" by blast
    show "Contains (c # s) sub"
    proof (cases u)
      case Nil
      with uv have "HasPrefix (c # s) sub" by (auto simp: HasPrefix_iff)
      then show ?thesis by simp
    next
      case (Cons d u')
      with uv have "s = u' @ sub @ v" by simp
      then have "Contains s sub" using Cons.IH by blast
      then show ?thesis by simp
    qed
  qed
qed

lemma Split_nonempty: "Split s c \<noteq> []"
  by (induction s) (auto split: list.splits)

lemma Split_hd_prefix: "Split s c = w # ws \<Longrightarrow> \<exists>v. s = w @ v"
  by (induction s arbitrary: w ws) (auto split: if_splits list.splits)

lemma Split_element_sublist: "e \<in> set (Split s c) \<Longrightarrow> \<exists>u v. s = u @ e @ v"
proof (induction s arbitrary: e)
  case Nil
  then show ?case by simp
next
  case (Cons d s)
  show ?case
  proof (cases "d = c")
    case True
    with Cons.prems have "e = [] \<or> e \<in> set (Split s c)" by auto
    then show ?thesis
    proof
      assume "e = []"
      then have "d # s = [] @ e @ (d # s)" by simp
      then show ?thesis by blast
    next
      assume "e \<in> set (Split s c)"
      then obtain u v where "s = u @ e @ v" using Cons.IH by blast
      then have "d # s = (d # u) @ e @ v" by simp
      then show ?thesis by blast
    qed
  next
    case False
    obtain w ws where sp: "Split s c = w # ws"
      using Split_nonempty by (cases "Split s c") auto
    with False Cons.prems have "e = d # w \<or> e \<in> set ws" by auto
    then show ?thesis
    proof
      assume e: "e = d # w"
      obtain v' where "s = w @ v'" using Split_hd_prefix [OF sp] by blast
      then have "d # s = [] @ e @ v'" using e by simp
      then show ?thesis by blast
    next
      assume "e \<in> set ws"
      then have "e \<in> set (Split s c)" using sp by simp
      then obtain u v where "s = u @ e @ v" using Cons.IH by blast
      then have "d # s = (d # u) @ e @ v" by simp
      then show ?thesis by blast
    qed
  qed
qed

section \<open>The registry: \<open>NewPackage\<close>\<close>

lemma list_all_keys_update:
  "list_all P (map fst (AList.update k v al)) \<longleftrightarrow> P k \<and> list_all P (map fst al)"
  unfolding list_all_iff set_map dom_update by auto

lemma registryWellFormed_empty: "pkgsByLocation s = [] \<Longrightarrow> registryWellFormed s"
  by (simp add: registryWellFormed_def)

lemma NewPackage_registryWellFormed:
  assumes "registryWellFormed s" "NewPackage s fullPath = Inr (pkg, err, s')"
  shows "registryWellFormed s'"
  using assms
  by (auto simp: NewPackage_def Let_def new_def registryWellFormed_def list_all_keys_update
      split: if_splits prod.splits)

lemma registered_key_long:
  assumes "registryWellFormed s" "map_of (pkgsByLocation s) fullPath \<noteq> None"
  shows "fullPath = standardLibraryPath s \<or> length (standardLibraryPath s) + 1 \<le> length fullPath"
proof -
  from assms(2) have "fullPath \<in> fst ` set (pkgsByLocation s)"
    by (simp add: map_of_eq_None_iff)
  with assms(1) show ?thesis
    by (auto simp: registryWellFormed_def list_all_iff)
qed

text \<open>
  C10. \<open>NewPackage\<close> returns only for the root and for arguments of at least
  \<open>len(standardLibraryPath) + 1\<close> bytes: in a registry built by \<open>NewPackage\<close>, any
  other argument makes the slice expression \<open>fullPath[len(standardLibraryPath+"/"):]\<close>
  panic, and no argument of the first kind panics.
\<close>

theorem NewPackage_slice_precondition:
  assumes "registryWellFormed s"
  shows "(NewPackage s fullPath = Inl SliceBoundsOutOfRange \<longleftrightarrow>
            fullPath \<noteq> standardLibraryPath s \<and>
            length fullPath < length (standardLibraryPath s) + 1)
       \<and> ((\<exists>r. NewPackage s fullPath = Inr r) \<longleftrightarrow>
            fullPath = standardLibraryPath s \<or>
            length (standardLibraryPath s) + 1 \<le> length fullPath)"
proof (cases "map_of (pkgsByLocation s) fullPath = None")
  case True
  then show ?thesis
    by (auto simp: NewPackage_def Let_def split: prod.splits)
next
  case False
  with registered_key_long [OF assms]
  have "fullPath = standardLibraryPath s \<or> length (standardLibraryPath s) + 1 \<le> length fullPath"
    by blast
  with False show ?thesis
    by (auto simp: NewPackage_def)
qed

theorem NewPackage_slice_precondition_witness:
  "registryWellFormed exampleState
   \<and> NewPackage exampleState ''/g'' = Inl SliceBoundsOutOfRange
   \<and> (\<exists>r. NewPackage exampleState ''/go/a'' = Inr r)"
  using NewPackage_slice_precondition [of exampleState "''/g''"]
    NewPackage_slice_precondition [of exampleState "''/go/a''"]
  by (simp add: registryWellFormed_def exampleState_def)

text \<open>
  C7, as stated, fails: \<open>/g\<close> is not in the empty registry of \<open>exampleState\<close>, whose
  root is \<open>/go\<close>, and \<open>NewPackage\<close> panics instead of registering it.
\<close>

theorem NewPackage_unregistered_counterexample:
  "map_of (pkgsByLocation exampleState) ''/g'' = None
   \<and> NewPackage exampleState ''/g'' = Inl SliceBoundsOutOfRange"
  by (simp add: NewPackage_def exampleState_def)

text \<open>
  C7, amended. For an identity already in the registry, \<open>NewPackage\<close> returns nil and
  an error and leaves the whole state as it was. For an identity that is not in the
  registry and that is the root or has at least \<open>len(standardLibraryPath) + 1\<close> bytes, it
  allocates exactly one package, at a fresh address, returns it with a nil error, and
  the registry afterwards is the old one with that identity mapped to the new package.
\<close>

theorem NewPackage_registry:
  "(map_of (pkgsByLocation s) fullPath \<noteq> None \<longrightarrow>
      (\<exists>msg. NewPackage s fullPath = Inr (None, Some msg, s)))
   \<and> (map_of (pkgsByLocation s) fullPath = None \<and>
      (fullPath = standardLibraryPath s \<or> length (standardLibraryPath s) + 1 \<le> length fullPath) \<longrightarrow>
      (\<exists>p s'. NewPackage s fullPath = Inr (Some (length (heap s)), None, s') \<and>
         heap s' = heap s @ [p] \<and>
         map_of (pkgsByLocation s') =
           (map_of (pkgsByLocation s))(fullPath \<mapsto> Some (length (heap s))) \<and>
         standardLibraryPath s' = standardLibraryPath s))"
  by (auto simp: NewPackage_def Let_def new_def update_conv' split: prod.splits)

theorem NewPackage_registry_witness:
  "(\<exists>msg. NewPackage registeredState ''/go/a'' = Inr (None, Some msg, registeredState))
   \<and> (\<exists>p s'. NewPackage exampleState ''/go/a'' = Inr (Some 0, None, s') \<and>
         heap s' = [p] \<and>
         map_of (pkgsByLocation s') = [''/go/a'' \<mapsto> Some 0])"
proof -
  have 1: "map_of (pkgsByLocation registeredState) ''/go/a'' \<noteq> None"
    by (simp add: registeredState_def)
  have 2: "map_of (pkgsByLocation exampleState) ''/go/a'' = None \<and>
      (''/go/a'' = standardLibraryPath exampleState \<or>
       length (standardLibraryPath exampleState) + 1 \<le> length ''/go/a'')"
    by (simp add: exampleState_def)
  have 3: "heap exampleState = []" "pkgsByLocation exampleState = []"
    by (simp_all add: exampleState_def)
  show ?thesis
    using NewPackage_registry [of registeredState "''/go/a''"] 1
      NewPackage_registry [of exampleState "''/go/a''"] 2
    unfolding 3 by auto
qed

text \<open>
  C6, as stated, fails: the package registered for \<open>/go/internals\<close> has the relative
  path \<open>internals\<close>, which has no path element \<open>internal\<close>, and its \<open>Internal\<close> flag is
  set.
\<close>

theorem NewPackage_Internal_counterexample:
  "NewPackage exampleState ''/go/internals'' =
     Inr (Some 0, None, exampleState
       \<lparr>heap := [\<lparr>RelPath = ''internals'', Learned = False, Dependencies = [], Dependants = [],
                  Internal = True\<rparr>],
        pkgsByLocation := [(''/go/internals'', Some 0)]\<rparr>)
   \<and> ''internal'' \<notin> set (Split ''internals'' (CHR ''/''))"
  by (simp add: NewPackage_def exampleState_def new_def zeroPackage_def HasPrefix_def Let_def)

text \<open>
  C6, amended. For a package that \<open>NewPackage\<close> registers under an identity other
  than the root, the relative path is the identity without its first
  \<open>len(standardLibraryPath) + 1\<close> bytes, and \<open>Internal\<close> is true exactly when the
  bytes \<open>internal\<close> occur somewhere in the relative path; so it is true whenever
  \<open>internal\<close> is a whole path element.
\<close>

theorem NewPackage_Internal:
  assumes "NewPackage s fullPath = Inr (Some a, err, s')"
    and "fullPath \<noteq> standardLibraryPath s"
  shows "RelPath (heap s' ! a) = drop (length (standardLibraryPath s) + 1) fullPath
       \<and> (Internal (heap s' ! a) \<longleftrightarrow> (\<exists>u v. RelPath (heap s' ! a) = u @ ''internal'' @ v))
       \<and> (''internal'' \<in> set (Split (RelPath (heap s' ! a)) (CHR ''/'')) \<longrightarrow> Internal (heap s' ! a))"
proof -
  from assms have ok: "map_of (pkgsByLocation s) fullPath = None"
      "\<not> length fullPath < length (standardLibraryPath s @ ''/'')"
    by (auto simp: NewPackage_def split: if_splits)
  define rel where "rel = drop (length (standardLibraryPath s @ ''/'')) fullPath"
  from assms ok have a: "a = length (heap s)"
    and h: "heap s' = heap s @ [zeroPackage\<lparr>RelPath := rel, Internal := Contains rel ''internal''\<rparr>]"
    by (auto simp: NewPackage_def Let_def new_def rel_def split: prod.splits)
  have rp: "RelPath (heap s' ! a) = drop (length (standardLibraryPath s) + 1) fullPath"
    using a h by (simp add: rel_def)
  have int: "Internal (heap s' ! a) \<longleftrightarrow> (\<exists>u v. RelPath (heap s' ! a) = u @ ''internal'' @ v)"
    using a h by (simp add: Contains_iff)
  have "''internal'' \<in> set (Split (RelPath (heap s' ! a)) (CHR ''/'')) \<longrightarrow> Internal (heap s' ! a)"
    using int Split_element_sublist by blast
  with rp int show ?thesis by blast
qed

theorem NewPackage_Internal_witness:
  "\<exists>s'. NewPackage exampleState ''/go/internal/x'' = Inr (Some 0, None, s') \<and>
     ''/go/internal/x'' \<noteq> standardLibraryPath exampleState \<and>
     RelPath (heap s' ! 0) = ''internal/x'' \<and> Internal (heap s' ! 0)"
proof -
  define s' where "s' = exampleState
       \<lparr>heap := [\<lparr>RelPath = ''internal/x'', Learned = False, Dependencies = [], Dependants = [],
                  Internal = True\<rparr>],
        pkgsByLocation := [(''/go/internal/x'', Some 0)]\<rparr>"
  have run: "NewPackage exampleState ''/go/internal/x'' = Inr (Some 0, None, s')"
    by (simp add: NewPackage_def exampleState_def new_def zeroPackage_def HasPrefix_def s'_def
        Let_def)
  have ne: "''/go/internal/x'' \<noteq> standardLibraryPath exampleState"
    by (simp add: exampleState_def)
  have rp: "RelPath (heap s' ! 0) = ''internal/x''"
    using NewPackage_Internal [OF run ne] by (simp add: exampleState_def)
  then have "''internal'' \<in> set (Split (RelPath (heap s' ! 0)) (CHR ''/''))"
    by simp
  then have "Internal (heap s' ! 0)"
    using NewPackage_Internal [OF run ne] by blast
  with run ne rp show ?thesis by blast
qed

section \<open>The dependency graph: \<open>DependencyDepth\<close>\<close>

lemma set_edges:
  "set (edges field s) = {(a, b). a < length (heap s) \<and> Some b \<in> set (field (heap s ! a))}"
proof -
  have "(a, b) \<in> set (edges field s)
      \<longleftrightarrow> a < length (heap s) \<and> Some b \<in> set (field (heap s ! a))" for a b
  proof
    assume "(a, b) \<in> set (edges field s)"
    then show "a < length (heap s) \<and> Some b \<in> set (field (heap s ! a))"
      by (auto simp: edges_def List.map_filter_def)
  next
    assume ab: "a < length (heap s) \<and> Some b \<in> set (field (heap s ! a))"
    then have "b \<in> set (List.map_filter id (field (heap s ! a)))"
      by (force simp: List.map_filter_def image_iff)
    with ab show "(a, b) \<in> set (edges field s)"
      by (auto simp: edges_def)
  qed
  then show ?thesis by auto
qed

lemma finite_graphs: "finite (dependencyGraph s)" "finite (dependantGraph s)"
  by (simp_all add: dependencyGraph_def dependantGraph_def)

lemma heapClosed_Dependencies:
  assumes "heapClosed s" "a < length (heap s)" "p \<in> set (Dependencies (heap s ! a))"
  shows "\<exists>b. p = Some b \<and> b < length (heap s) \<and> (a, b) \<in> dependencyGraph s"
proof -
  from assms have "allocated s p"
    by (auto simp: heapClosed_def list_all_iff)
  then obtain b where "p = Some b" "b < length (heap s)"
    by (auto simp: allocated_def split: option.splits)
  with assms show ?thesis
    by (auto simp: dependencyGraph_def set_edges)
qed

lemma heapClosed_Dependants:
  assumes "heapClosed s" "a < length (heap s)" "p \<in> set (Dependants (heap s ! a))"
  shows "\<exists>b. p = Some b \<and> b < length (heap s) \<and> (a, b) \<in> dependantGraph s"
proof -
  from assms have "allocated s p"
    by (auto simp: heapClosed_def list_all_iff)
  then obtain b where "p = Some b" "b < length (heap s)"
    by (auto simp: allocated_def split: option.splits)
  with assms show ?thesis
    by (auto simp: dependantGraph_def set_edges)
qed

lemma depthLoop_mono:
  assumes "\<And>p r. p \<in> set ds \<Longrightarrow> f p = Some r \<Longrightarrow> g p = Some r"
    and "depthLoop f ds d = Some r"
  shows "depthLoop g ds d = Some r"
  using assms
proof (induction ds arbitrary: d)
  case Nil
  then show ?case by simp
next
  case (Cons p ds)
  from Cons.prems(2) obtain x where fx: "f p = Some x"
    by (cases "f p") auto
  then have gx: "g p = Some x" using Cons.prems(1) by simp
  show ?case
  proof (cases x)
    case (Inl e)
    with fx gx Cons.prems(2) show ?thesis by auto
  next
    case (Inr v)
    with fx Cons.prems(2)
    have "depthLoop f ds (if v \<ge> d then v + 1 else d) = Some r" by simp
    then have "depthLoop g ds (if v \<ge> d then v + 1 else d) = Some r"
      using Cons.IH Cons.prems(1) by simp
    with gx Inr show ?thesis by simp
  qed
qed

lemma DependencyDepth_mono:
  "DependencyDepth n s p = Some r \<Longrightarrow> n \<le> m \<Longrightarrow> DependencyDepth m s p = Some r"
proof (induction n arbitrary: m p r)
  case 0
  then show ?case by simp
next
  case (Suc n)
  then obtain m' where m: "m = Suc m'" "n \<le> m'"
    by (cases m) auto
  show ?case
  proof (cases p)
    case None
    with Suc.prems m show ?thesis by simp
  next
    case (Some a)
    show ?thesis
    proof (cases "Predeclared s (heap s ! a) \<or> Learned (heap s ! a)")
      case True
      with Some Suc.prems m show ?thesis by simp
    next
      case False
      with Some Suc.prems
      have "depthLoop (\<lambda>p. DependencyDepth n s p) (Dependencies (heap s ! a)) 0 = Some r"
        by simp
      then have "depthLoop (\<lambda>p. DependencyDepth m' s p) (Dependencies (heap s ! a)) 0 = Some r"
        by (rule depthLoop_mono [rotated]) (use Suc.IH m in blast)
      with Some False m show ?thesis by simp
    qed
  qed
qed

lemma depthLoop_value:
  assumes "\<forall>p\<in>set ds. f p = Some (Inr (v p))"
  shows "depthLoop f ds d = Some (Inr (Max (insert d ((\<lambda>p. v p + 1) ` set ds))))"
  using assms
proof (induction ds arbitrary: d)
  case Nil
  then show ?case by simp
next
  case (Cons p ds)
  have eq: "(if v p \<ge> d then v p + 1 else d) = max d (v p + 1)" by auto
  have "depthLoop f (p # ds) d = depthLoop f ds (max d (v p + 1))"
    using Cons.prems by (simp add: eq)
  also have "\<dots> = Some (Inr (Max (insert (max d (v p + 1)) ((\<lambda>p. v p + 1) ` set ds))))"
    using Cons by simp
  also have "Max (insert (max d (v p + 1)) ((\<lambda>p. v p + 1) ` set ds))
      = Max (insert d ((\<lambda>p. v p + 1) ` set (p # ds)))"
    by (cases "set ds = {}") (simp_all add: max.assoc max.commute max.left_commute)
  finally show ?case .
qed

lemma DependencyDepthReturns_unique:
  assumes "DependencyDepthReturns s p d" "DependencyDepthReturns s p d'"
  shows "d = d'"
proof -
  from assms obtain n n' where "\<forall>m\<ge>n. DependencyDepth m s p = Some (Inr d)"
    "\<forall>m\<ge>n'. DependencyDepth m s p = Some (Inr d')"
    by (auto simp: DependencyDepthReturns_def)
  then have "DependencyDepth (max n n') s p = Some (Inr d)"
    "DependencyDepth (max n n') s p = Some (Inr d')"
    using max.cobounded1 max.cobounded2 by blast+
  then show ?thesis by simp
qed

lemma DependencyDepthReturns_terminal:
  assumes "terminal s (heap s ! a)"
  shows "DependencyDepthReturns s (Some a) (- 1)"
proof -
  have "\<forall>m\<ge>1. DependencyDepth m s (Some a) = Some (Inr (- 1))"
  proof (intro allI impI)
    fix m :: nat assume "1 \<le> m"
    then obtain m' where "m = Suc m'" by (cases m) auto
    with assms show "DependencyDepth m s (Some a) = Some (Inr (- 1))"
      by (auto simp: terminal_def)
  qed
  then show ?thesis unfolding DependencyDepthReturns_def by blast
qed

lemma DependencyDepthReturns_step:
  assumes nt: "\<not> terminal s (heap s ! a)"
    and deps: "\<forall>p\<in>set (Dependencies (heap s ! a)). DependencyDepthReturns s p (v p)"
  shows "DependencyDepthReturns s (Some a)
           (Max (insert 0 ((\<lambda>p. v p + 1) ` set (Dependencies (heap s ! a)))))"
proof -
  let ?ds = "Dependencies (heap s ! a)"
  from deps have "\<forall>p\<in>set ?ds. \<exists>n. \<forall>m\<ge>n. DependencyDepth m s p = Some (Inr (v p))"
    by (simp add: DependencyDepthReturns_def)
  then obtain N where N: "\<forall>p\<in>set ?ds. \<forall>m\<ge>N p. DependencyDepth m s p = Some (Inr (v p))"
    by metis
  define K where "K = Max (insert 0 (N ` set ?ds))"
  have K: "\<And>p. p \<in> set ?ds \<Longrightarrow> N p \<le> K"
    by (simp add: K_def)
  have "\<forall>m\<ge>Suc K. DependencyDepth m s (Some a)
      = Some (Inr (Max (insert 0 ((\<lambda>p. v p + 1) ` set ?ds))))"
  proof (intro allI impI)
    fix m assume "Suc K \<le> m"
    then obtain m' where m: "m = Suc m'" "K \<le> m'" by (cases m) auto
    have "\<forall>p\<in>set ?ds. DependencyDepth m' s p = Some (Inr (v p))"
      using N K m(2) by (meson order_trans)
    then have "depthLoop (\<lambda>p. DependencyDepth m' s p) ?ds 0
        = Some (Inr (Max (insert 0 ((\<lambda>p. v p + 1) ` set ?ds))))"
      by (rule depthLoop_value)
    with nt m show "DependencyDepth m s (Some a)
        = Some (Inr (Max (insert 0 ((\<lambda>p. v p + 1) ` set ?ds))))"
      by (simp add: terminal_def)
  qed
  then show ?thesis unfolding DependencyDepthReturns_def by blast
qed

lemma DependencyDepth_total:
  assumes closed: "heapClosed s" and acyc: "acyclic (dependencyGraph s)"
  shows "a < length (heap s) \<Longrightarrow> \<exists>d. DependencyDepthReturns s (Some a) d"
proof -
  have "wf ((dependencyGraph s)\<inverse>)"
    using finite_graphs(1) acyc by (rule finite_acyclic_wf_converse)
  then show "a < length (heap s) \<Longrightarrow> \<exists>d. DependencyDepthReturns s (Some a) d"
  proof (induction a rule: wf_induct_rule)
    case (less a)
    show ?case
    proof (cases "terminal s (heap s ! a)")
      case True
      then show ?thesis using DependencyDepthReturns_terminal by blast
    next
      case False
      have "\<forall>p\<in>set (Dependencies (heap s ! a)). \<exists>d. DependencyDepthReturns s p d"
      proof
        fix p assume "p \<in> set (Dependencies (heap s ! a))"
        then obtain b where "p = Some b" "b < length (heap s)" "(a, b) \<in> dependencyGraph s"
          using heapClosed_Dependencies [OF closed less.prems] by blast
        then show "\<exists>d. DependencyDepthReturns s p d"
          using less.IH [of b] by simp
      qed
      then obtain v where "\<forall>p\<in>set (Dependencies (heap s ! a)). DependencyDepthReturns s p (v p)"
        by metis
      then show ?thesis using DependencyDepthReturns_step [OF False] by blast
    qed
  qed
qed

lemma depthLoop_lower:
  "depthLoop f ds d = Some (Inr r) \<Longrightarrow> d \<le> r"
proof (induction ds arbitrary: d)
  case Nil
  then show ?case by simp
next
  case (Cons p ds)
  then show ?case
    by (fastforce split: option.splits sum.splits if_splits)
qed

lemma DependencyDepth_lower:
  "DependencyDepth n s p = Some (Inr d) \<Longrightarrow> - 1 \<le> d"
proof (cases n)
  case 0
  assume "DependencyDepth n s p = Some (Inr d)"
  with 0 show ?thesis by simp
next
  case (Suc n')
  assume "DependencyDepth n s p = Some (Inr d)"
  with Suc show ?thesis
    by (auto split: option.splits if_splits dest: depthLoop_lower)
qed

lemma DependencyDepthReturns_lower:
  "DependencyDepthReturns s p d \<Longrightarrow> - 1 \<le> d"
  unfolding DependencyDepthReturns_def using DependencyDepth_lower by blast

lemma acyclic_increasing:
  assumes "\<forall>(a, b)\<in>r. (a::nat) < b"
  shows "acyclic r"
proof (rule acyclicI_order [where f = "\<lambda>x. - int x"])
  fix a b assume "(a, b) \<in> r"
  with assms show "- int b < - int a" by auto
qed

lemma acyclic_decreasing:
  assumes "\<forall>(a, b)\<in>r. (b::nat) < a"
  shows "acyclic r"
proof (rule acyclicI_order [where f = "\<lambda>x. int x"])
  fix a b assume "(a, b) \<in> r"
  with assms show "int b < int a" by auto
qed

lemma graphState_heap_length: "length (heap graphState) = 5"
  by (simp add: graphState_def)

lemma graphState_closed: "heapClosed graphState"
  by (simp add: graphState_def heapClosed_def allocated_def)

lemma graphState_dependencyGraph:
  "dependencyGraph graphState = {(0, 1), (0, 2), (1, 3), (2, 3)}"
  by (simp add: dependencyGraph_def edges_def graphState_def List.map_filter_def upt_rec eval_nat_numeral)

lemma graphState_dependantGraph:
  "dependantGraph graphState = {(1, 0), (2, 0), (3, 1), (3, 2)}"
  by (simp add: dependantGraph_def edges_def graphState_def List.map_filter_def upt_rec eval_nat_numeral)

lemma graphState_acyclic: "acyclic (dependencyGraph graphState)"
  by (rule acyclic_increasing) (simp add: graphState_dependencyGraph)

lemma graphState_acyclic_dependants: "acyclic (dependantGraph graphState)"
  by (rule acyclic_decreasing) (simp add: graphState_dependantGraph)

lemma graphState_names:
  "map (Name graphState) (heap graphState) = [''a'', ''b'', ''golang_org/x/net'', ''unsafe'', ''internal/x'']"
  by (simp add: graphState_def Name_def IsVendor_def Join_def Clean_def cleanStep_def)

lemma DependencyDepthReturnsI:
  assumes "DependencyDepth n s p = Some (Inr d)"
  shows "DependencyDepthReturns s p d"
  unfolding DependencyDepthReturns_def using DependencyDepth_mono [OF assms] by blast

lemma DependencyDepthReturns_eval:
  assumes "DependencyDepthReturns s p d" "DependencyDepth n s p = Some (Inr d')"
  shows "d = d'"
  using assms DependencyDepthReturnsI DependencyDepthReturns_unique by blast

text \<open>
  C2. In a closed heap whose dependency graph is acyclic, \<open>DependencyDepth\<close> returns
  on every package, and what it returns is \<open>-1\<close> for a learned or predeclared package,
  otherwise \<open>0\<close> when the package has no dependencies, otherwise one more than the
  greatest value it returns on a dependency of the package.
\<close>

theorem DependencyDepth_recurrence:
  assumes "heapClosed s" and "acyclic (dependencyGraph s)" and "a < length (heap s)"
  shows "\<exists>d. DependencyDepthReturns s (Some a) d \<and>
           d = (if Learned (heap s ! a) \<or> Predeclared s (heap s ! a) then - 1
                else if Dependencies (heap s ! a) = [] then 0
                else 1 + Max {d'. \<exists>p\<in>set (Dependencies (heap s ! a)).
                                   DependencyDepthReturns s p d'})"
proof (cases "terminal s (heap s ! a)")
  case True
  then show ?thesis
    using DependencyDepthReturns_terminal by (auto simp: terminal_def)
next
  case False
  let ?ds = "Dependencies (heap s ! a)"
  have "\<forall>p\<in>set ?ds. \<exists>d. DependencyDepthReturns s p d"
  proof
    fix p assume "p \<in> set ?ds"
    then obtain b where "p = Some b" "b < length (heap s)"
      using heapClosed_Dependencies [OF assms(1,3)] by blast
    then show "\<exists>d. DependencyDepthReturns s p d"
      using DependencyDepth_total [OF assms(1,2)] by simp
  qed
  then obtain v where v: "\<forall>p\<in>set ?ds. DependencyDepthReturns s p (v p)"
    by metis
  have ret: "DependencyDepthReturns s (Some a) (Max (insert 0 ((\<lambda>p. v p + 1) ` set ?ds)))"
    using DependencyDepthReturns_step [OF False v] .
  have set_eq: "{d'. \<exists>p\<in>set ?ds. DependencyDepthReturns s p d'} = v ` set ?ds"
    using v DependencyDepthReturns_unique by blast
  have "Max (insert 0 ((\<lambda>p. v p + 1) ` set ?ds)) = 1 + Max (v ` set ?ds)" if ne: "?ds \<noteq> []"
  proof -
    have fin: "finite (v ` set ?ds)" and nonempty: "v ` set ?ds \<noteq> {}"
      using ne by simp_all
    have "(\<lambda>p. v p + 1) ` set ?ds = (\<lambda>x. x + 1) ` (v ` set ?ds)"
      by (simp add: image_image)
    moreover have "Max ((\<lambda>x. x + 1) ` (v ` set ?ds)) = Max (v ` set ?ds) + 1"
      by (rule mono_Max_commute [symmetric]) (use ne in \<open>auto simp: mono_def\<close>)
    moreover have "- 1 \<le> Max (v ` set ?ds)"
    proof -
      obtain p where "p \<in> set ?ds" using ne by (cases ?ds) auto
      then have "- 1 \<le> v p" using v DependencyDepthReturns_lower by blast
      moreover have "v p \<le> Max (v ` set ?ds)" using \<open>p \<in> set ?ds\<close> by simp
      ultimately show ?thesis by linarith
    qed
    ultimately show ?thesis using ne by simp
  qed
  with ret set_eq False show ?thesis
    by (auto simp: terminal_def)
qed

theorem DependencyDepth_recurrence_witness:
  "heapClosed graphState \<and> acyclic (dependencyGraph graphState) \<and>
   (0::nat) < length (heap graphState) \<and>
   DependencyDepthReturns graphState (Some 0) 1 \<and>
   1 + Max {d'. \<exists>p\<in>set (Dependencies (heap graphState ! 0)).
              DependencyDepthReturns graphState p d'} = 1"
proof -
  have len: "(0::nat) < length (heap graphState)"
    by (simp add: graphState_heap_length)
  have nt: "\<not> (Learned (heap graphState ! 0) \<or> Predeclared graphState (heap graphState ! 0))"
    "Dependencies (heap graphState ! 0) \<noteq> []"
    by (simp_all add: graphState_def Predeclared_def Name_def IsVendor_def)
  from DependencyDepth_recurrence [OF graphState_closed graphState_acyclic len] nt
  obtain d where d: "DependencyDepthReturns graphState (Some 0) d"
    "d = 1 + Max {d'. \<exists>p\<in>set (Dependencies (heap graphState ! 0)).
              DependencyDepthReturns graphState p d'}"
    by auto
  have "DependencyDepth 3 graphState (Some 0) = Some (Inr 1)"
    by (simp add: numeral_3_eq_3 graphState_def Predeclared_def Name_def IsVendor_def Join_def
        Clean_def cleanStep_def)
  then have "d = 1" using d(1) DependencyDepthReturns_eval by blast
  with d graphState_closed graphState_acyclic len show ?thesis by simp
qed

lemma DependencyDepth_nonterminal:
  assumes "\<not> terminal s (heap s ! a)" "DependencyDepth n s (Some a) = Some (Inr d)"
  shows "0 \<le> d"
proof (cases n)
  case 0
  with assms show ?thesis by simp
next
  case (Suc n')
  with assms show ?thesis
    by (auto simp: terminal_def dest: depthLoop_lower)
qed

lemma DependencyDepthReturns_terminal_iff:
  assumes "DependencyDepthReturns s (Some a) d"
  shows "d = - 1 \<longleftrightarrow> terminal s (heap s ! a)"
proof
  assume "terminal s (heap s ! a)"
  then show "d = - 1"
    using assms DependencyDepthReturns_terminal DependencyDepthReturns_unique by blast
next
  assume d: "d = - 1"
  show "terminal s (heap s ! a)"
  proof (rule ccontr)
    assume nt: "\<not> terminal s (heap s ! a)"
    from assms obtain n where "DependencyDepth n s (Some a) = Some (Inr d)"
      unfolding DependencyDepthReturns_def by blast
    then have "0 \<le> d" using DependencyDepth_nonterminal [OF nt] by blast
    with d show False by simp
  qed
qed

text \<open>
  C5, as stated, fails: in \<open>graphState\<close> the package \<open>b\<close> is neither learned nor
  predeclared and has the dependency \<open>unsafe\<close>, and its depth is \<open>0\<close>.
\<close>

theorem DependencyDepth_zero_counterexample:
  "DependencyDepth 2 graphState (Some 1) = Some (Inr 0)
   \<and> Dependencies (heap graphState ! 1) = [Some 3]
   \<and> \<not> Learned (heap graphState ! 1) \<and> \<not> Predeclared graphState (heap graphState ! 1)"
  by (simp add: numeral_2_eq_2 graphState_def Predeclared_def Name_def IsVendor_def)

text \<open>
  C5, amended. In a closed heap whose dependency graph is acyclic, \<open>DependencyDepth\<close>
  returns on every package a value that is at least \<open>-1\<close>; the value is \<open>-1\<close> exactly
  when the package is learned or predeclared; and it is \<open>0\<close> exactly when the package is
  neither and each of its dependencies is learned or predeclared, which includes the
  package without dependencies.
\<close>

theorem DependencyDepth_range:
  assumes "heapClosed s" and "acyclic (dependencyGraph s)" and "a < length (heap s)"
  shows "\<exists>d. DependencyDepthReturns s (Some a) d \<and> - 1 \<le> d \<and>
           (d = - 1 \<longleftrightarrow> Learned (heap s ! a) \<or> Predeclared s (heap s ! a)) \<and>
           (d = 0 \<longleftrightarrow>
              \<not> (Learned (heap s ! a) \<or> Predeclared s (heap s ! a)) \<and>
              list_all (\<lambda>p. case p of None \<Rightarrow> False
                            | Some b \<Rightarrow> Learned (heap s ! b) \<or> Predeclared s (heap s ! b))
                (Dependencies (heap s ! a)))"
proof -
  let ?ds = "Dependencies (heap s ! a)"
  obtain d where d: "DependencyDepthReturns s (Some a) d"
    using DependencyDepth_total [OF assms] by blast
  have lower: "- 1 \<le> d" using d by (rule DependencyDepthReturns_lower)
  have tm: "d = - 1 \<longleftrightarrow> terminal s (heap s ! a)"
    using d by (rule DependencyDepthReturns_terminal_iff)
  have zero: "d = 0 \<longleftrightarrow>
      list_all (\<lambda>p. case p of None \<Rightarrow> False
                    | Some b \<Rightarrow> Learned (heap s ! b) \<or> Predeclared s (heap s ! b)) ?ds"
    if nt: "\<not> terminal s (heap s ! a)"
  proof -
    have "\<forall>p\<in>set ?ds. \<exists>d. DependencyDepthReturns s p d"
    proof
      fix p assume "p \<in> set ?ds"
      then obtain b where "p = Some b" "b < length (heap s)"
        using heapClosed_Dependencies [OF assms(1,3)] by blast
      then show "\<exists>d. DependencyDepthReturns s p d"
        using DependencyDepth_total [OF assms(1,2)] by simp
    qed
    then obtain v where v: "\<forall>p\<in>set ?ds. DependencyDepthReturns s p (v p)"
      by metis
    have "DependencyDepthReturns s (Some a) (Max (insert 0 ((\<lambda>p. v p + 1) ` set ?ds)))"
      using DependencyDepthReturns_step [OF nt v] .
    then have dmax: "d = Max (insert 0 ((\<lambda>p. v p + 1) ` set ?ds))"
      using d DependencyDepthReturns_unique by blast
    have "d = 0 \<longleftrightarrow> (\<forall>p\<in>set ?ds. v p + 1 \<le> 0)"
    proof
      assume "d = 0"
      then have "\<forall>x\<in>insert 0 ((\<lambda>p. v p + 1) ` set ?ds). x \<le> 0"
        using dmax by (metis Max_ge finite.insertI finite_imageI finite_set)
      then show "\<forall>p\<in>set ?ds. v p + 1 \<le> 0" by simp
    next
      assume le: "\<forall>p\<in>set ?ds. v p + 1 \<le> 0"
      have "Max (insert 0 ((\<lambda>p. v p + 1) ` set ?ds)) = 0"
        by (rule Max_eqI) (use le in auto)
      with dmax show "d = 0" by simp
    qed
    also have "\<dots> \<longleftrightarrow> (\<forall>p\<in>set ?ds. v p = - 1)"
    proof -
      have "- 1 \<le> v p" if "p \<in> set ?ds" for p
        using v that DependencyDepthReturns_lower by blast
      then show ?thesis by (smt (verit, best))
    qed
    also have "\<dots> \<longleftrightarrow> (\<forall>p\<in>set ?ds. \<exists>b. p = Some b \<and> terminal s (heap s ! b))"
    proof (intro ball_cong refl)
      fix p assume p: "p \<in> set ?ds"
      then obtain b where b: "p = Some b"
        using heapClosed_Dependencies [OF assms(1,3)] by blast
      with v p have "DependencyDepthReturns s (Some b) (v p)" by auto
      then have "v p = - 1 \<longleftrightarrow> terminal s (heap s ! b)"
        by (rule DependencyDepthReturns_terminal_iff)
      with b show "v p = - 1 \<longleftrightarrow> (\<exists>b. p = Some b \<and> terminal s (heap s ! b))" by simp
    qed
    also have "\<dots> \<longleftrightarrow>
        list_all (\<lambda>p. case p of None \<Rightarrow> False
                      | Some b \<Rightarrow> Learned (heap s ! b) \<or> Predeclared s (heap s ! b)) ?ds"
      by (auto simp: list_all_iff terminal_def split: option.splits)
    finally show ?thesis .
  qed
  show ?thesis
  proof (cases "terminal s (heap s ! a)")
    case True
    with tm have "d = - 1" by simp
    with d True show ?thesis
      by (intro exI [of _ d]) (simp add: terminal_def)
  next
    case False
    with d lower tm zero [OF False] show ?thesis
      by (intro exI [of _ d]) (simp add: terminal_def)
  qed
qed

theorem DependencyDepth_range_witness:
  "heapClosed graphState \<and> acyclic (dependencyGraph graphState) \<and>
   (1::nat) < length (heap graphState) \<and>
   DependencyDepthReturns graphState (Some 1) 0 \<and>
   list_all (\<lambda>p. case p of None \<Rightarrow> False
         | Some b \<Rightarrow> Learned (heap graphState ! b) \<or> Predeclared graphState (heap graphState ! b))
     (Dependencies (heap graphState ! 1))"
proof -
  have len: "(1::nat) < length (heap graphState)"
    by (simp add: graphState_heap_length)
  from DependencyDepth_range [OF graphState_closed graphState_acyclic len]
  obtain d where d: "DependencyDepthReturns graphState (Some 1) d"
    and z: "d = 0 \<longleftrightarrow>
              \<not> (Learned (heap graphState ! 1) \<or> Predeclared graphState (heap graphState ! 1)) \<and>
              list_all (\<lambda>p. case p of None \<Rightarrow> False
                   | Some b \<Rightarrow> Learned (heap graphState ! b) \<or> Predeclared graphState (heap graphState ! b))
                (Dependencies (heap graphState ! 1))"
    by blast
  have "DependencyDepth 2 graphState (Some 1) = Some (Inr 0)"
    by (simp add: numeral_2_eq_2 graphState_def Predeclared_def Name_def IsVendor_def)
  then have "d = 0" using d DependencyDepthReturns_eval by blast
  with d z graphState_closed graphState_acyclic len show ?thesis by blast
qed

section \<open>The dependants graph: \<open>Imported\<close>\<close>

lemma anyImported_mono:
  assumes "\<And>p r. p \<in> set ds \<Longrightarrow> f p = Some r \<Longrightarrow> g p = Some r"
    and "anyImported f ds = Some r"
  shows "anyImported g ds = Some r"
  using assms
proof (induction ds)
  case Nil
  then show ?case by simp
next
  case (Cons p ds)
  from Cons.prems(2) obtain x where fx: "f p = Some x"
    by (cases "f p") auto
  then have gx: "g p = Some x" using Cons.prems(1) by simp
  show ?case
  proof (cases x)
    case (Inl e)
    with fx gx Cons.prems(2) show ?thesis by auto
  next
    case (Inr b)
    show ?thesis
    proof (cases b)
      case True
      with Inr fx gx Cons.prems(2) show ?thesis by auto
    next
      case False
      with Inr fx Cons.prems(2) have "anyImported f ds = Some r" by simp
      then have "anyImported g ds = Some r"
        using Cons.IH Cons.prems(1) by simp
      with False Inr gx show ?thesis by simp
    qed
  qed
qed

lemma Imported_mono:
  "Imported n s p = Some r \<Longrightarrow> n \<le> m \<Longrightarrow> Imported m s p = Some r"
proof (induction n arbitrary: m p r)
  case 0
  then show ?case by simp
next
  case (Suc n)
  then obtain m' where m: "m = Suc m'" "n \<le> m'"
    by (cases m) auto
  show ?case
  proof (cases p)
    case None
    with Suc.prems m show ?thesis by simp
  next
    case (Some a)
    show ?thesis
    proof (cases "anyNonInternal s (Dependants (heap s ! a))")
      case (Inl e)
      with Some Suc.prems have "r = Inl e" by simp
      with Inl Some m show ?thesis by simp
    next
      case (Inr b)
      show ?thesis
      proof (cases b)
        case True
        with Inr Some Suc.prems have "r = Inr True" by simp
        with True Inr Some m show ?thesis by simp
      next
        case False
        with Inr Some Suc.prems
        have "anyImported (\<lambda>p. Imported n s p) (Dependants (heap s ! a)) = Some r"
          by simp
        then have "anyImported (\<lambda>p. Imported m' s p) (Dependants (heap s ! a)) = Some r"
          by (rule anyImported_mono [rotated]) (use Suc.IH m in blast)
        with False Inr Some m show ?thesis by simp
      qed
    qed
  qed
qed

lemma anyNonInternal_value:
  assumes "list_all (allocated s) ds"
  shows "anyNonInternal s ds = Inr (\<exists>p\<in>set ds. \<not> Internal (heap s ! the p))"
  using assms by (induction ds) (auto simp: allocated_def split: option.splits)

lemma anyImported_value:
  assumes "\<forall>p\<in>set ds. f p = Some (Inr (v p))"
  shows "anyImported f ds = Some (Inr (\<exists>p\<in>set ds. v p))"
  using assms by (induction ds) (auto split: bool.splits)

lemma ImportedReturnsI:
  assumes "Imported n s p = Some (Inr b)"
  shows "ImportedReturns s p b"
  unfolding ImportedReturns_def using Imported_mono [OF assms] by blast

lemma ImportedReturns_unique:
  assumes "ImportedReturns s p b" "ImportedReturns s p b'"
  shows "b = b'"
proof -
  from assms obtain n n' where "\<forall>m\<ge>n. Imported m s p = Some (Inr b)"
    "\<forall>m\<ge>n'. Imported m s p = Some (Inr b')"
    by (auto simp: ImportedReturns_def)
  then have "Imported (max n n') s p = Some (Inr b)"
    "Imported (max n n') s p = Some (Inr b')"
    using max.cobounded1 max.cobounded2 by blast+
  then show ?thesis by simp
qed

lemma ImportedReturns_eval:
  assumes "ImportedReturns s p b" "Imported n s p = Some (Inr b')"
  shows "b = b'"
  using assms ImportedReturnsI ImportedReturns_unique by blast

lemma heapClosed_Dependants_allocated:
  assumes "heapClosed s" "a < length (heap s)"
  shows "list_all (allocated s) (Dependants (heap s ! a))"
  using assms by (auto simp: heapClosed_def list_all_iff)

lemma ImportedReturns_step:
  assumes closed: "heapClosed s" and a: "a < length (heap s)"
    and deps: "\<forall>p\<in>set (Dependants (heap s ! a)). ImportedReturns s p (v p)"
  shows "ImportedReturns s (Some a)
           ((\<exists>p\<in>set (Dependants (heap s ! a)). \<not> Internal (heap s ! the p))
            \<or> (\<exists>p\<in>set (Dependants (heap s ! a)). v p))"
proof -
  let ?ds = "Dependants (heap s ! a)"
  let ?direct = "\<exists>p\<in>set ?ds. \<not> Internal (heap s ! the p)"
  have first: "anyNonInternal s ?ds = Inr ?direct"
    using heapClosed_Dependants_allocated [OF closed a] by (rule anyNonInternal_value)
  from deps have "\<forall>p\<in>set ?ds. \<exists>n. \<forall>m\<ge>n. Imported m s p = Some (Inr (v p))"
    by (simp add: ImportedReturns_def)
  then obtain N where N: "\<forall>p\<in>set ?ds. \<forall>m\<ge>N p. Imported m s p = Some (Inr (v p))"
    by metis
  define K where "K = Max (insert 0 (N ` set ?ds))"
  have K: "\<And>p. p \<in> set ?ds \<Longrightarrow> N p \<le> K"
    by (simp add: K_def)
  have "\<forall>m\<ge>Suc K. Imported m s (Some a) = Some (Inr (?direct \<or> (\<exists>p\<in>set ?ds. v p)))"
  proof (intro allI impI)
    fix m assume "Suc K \<le> m"
    then obtain m' where m: "m = Suc m'" "K \<le> m'" by (cases m) auto
    have "\<forall>p\<in>set ?ds. Imported m' s p = Some (Inr (v p))"
      using N K m(2) by (meson order_trans)
    then have "anyImported (\<lambda>p. Imported m' s p) ?ds = Some (Inr (\<exists>p\<in>set ?ds. v p))"
      by (rule anyImported_value)
    with first m show "Imported m s (Some a) = Some (Inr (?direct \<or> (\<exists>p\<in>set ?ds. v p)))"
      by (cases ?direct) simp_all
  qed
  then show ?thesis unfolding ImportedReturns_def by blast
qed

lemma reachesNonInternal_unfold:
  "reachesNonInternal s a \<longleftrightarrow>
     (\<exists>b. (a, b) \<in> dependantGraph s \<and> (\<not> Internal (heap s ! b) \<or> reachesNonInternal s b))"
proof
  assume "reachesNonInternal s a"
  then obtain q where q: "(a, q) \<in> (dependantGraph s)\<^sup>+" "\<not> Internal (heap s ! q)"
    by (auto simp: reachesNonInternal_def)
  from q(1) have "(a, q) \<in> dependantGraph s
      \<or> (\<exists>b. (a, b) \<in> dependantGraph s \<and> (b, q) \<in> (dependantGraph s)\<^sup>+)"
    by (metis converse_tranclE)
  with q(2) show "\<exists>b. (a, b) \<in> dependantGraph s \<and>
      (\<not> Internal (heap s ! b) \<or> reachesNonInternal s b)"
    by (auto simp: reachesNonInternal_def)
next
  assume "\<exists>b. (a, b) \<in> dependantGraph s \<and>
      (\<not> Internal (heap s ! b) \<or> reachesNonInternal s b)"
  then show "reachesNonInternal s a"
    by (auto simp: reachesNonInternal_def intro: trancl_into_trancl2)
qed

lemma Imported_reaches:
  assumes closed: "heapClosed s" and acyc: "acyclic (dependantGraph s)"
  shows "a < length (heap s) \<Longrightarrow> ImportedReturns s (Some a) (reachesNonInternal s a)"
proof -
  have "wf ((dependantGraph s)\<inverse>)"
    using finite_graphs(2) acyc by (rule finite_acyclic_wf_converse)
  then show "a < length (heap s) \<Longrightarrow> ImportedReturns s (Some a) (reachesNonInternal s a)"
  proof (induction a rule: wf_induct_rule)
    case (less a)
    let ?ds = "Dependants (heap s ! a)"
    have succ: "\<exists>b. p = Some b \<and> b < length (heap s) \<and> (a, b) \<in> dependantGraph s"
      if "p \<in> set ?ds" for p
      using heapClosed_Dependants [OF closed less.prems that] .
    have "\<forall>p\<in>set ?ds. ImportedReturns s p (reachesNonInternal s (the p))"
    proof
      fix p assume "p \<in> set ?ds"
      then obtain b where "p = Some b" "b < length (heap s)" "(a, b) \<in> dependantGraph s"
        using succ by blast
      then show "ImportedReturns s p (reachesNonInternal s (the p))"
        using less.IH [of b] by simp
    qed
    then have "ImportedReturns s (Some a)
        ((\<exists>p\<in>set ?ds. \<not> Internal (heap s ! the p))
         \<or> (\<exists>p\<in>set ?ds. reachesNonInternal s (the p)))"
      by (rule ImportedReturns_step [OF closed less.prems])
    moreover have "((\<exists>p\<in>set ?ds. \<not> Internal (heap s ! the p))
         \<or> (\<exists>p\<in>set ?ds. reachesNonInternal s (the p))) \<longleftrightarrow> reachesNonInternal s a"
    proof -
      have edge: "(a, b) \<in> dependantGraph s \<longleftrightarrow> Some b \<in> set ?ds" for b
        using less.prems by (simp add: dependantGraph_def set_edges)
      have "reachesNonInternal s a \<longleftrightarrow>
          (\<exists>b. Some b \<in> set ?ds \<and> (\<not> Internal (heap s ! b) \<or> reachesNonInternal s b))"
        by (subst reachesNonInternal_unfold) (simp add: edge)
      also have "\<dots> \<longleftrightarrow> (\<exists>p\<in>set ?ds. \<not> Internal (heap s ! the p) \<or> reachesNonInternal s (the p))"
      proof
        assume "\<exists>b. Some b \<in> set ?ds \<and> (\<not> Internal (heap s ! b) \<or> reachesNonInternal s b)"
        then obtain b where "Some b \<in> set ?ds"
          "\<not> Internal (heap s ! the (Some b)) \<or> reachesNonInternal s (the (Some b))"
          by auto
        then show "\<exists>p\<in>set ?ds. \<not> Internal (heap s ! the p) \<or> reachesNonInternal s (the p)"
          by blast
      next
        assume "\<exists>p\<in>set ?ds. \<not> Internal (heap s ! the p) \<or> reachesNonInternal s (the p)"
        then obtain p where p: "p \<in> set ?ds"
          "\<not> Internal (heap s ! the p) \<or> reachesNonInternal s (the p)" by blast
        then obtain b where "p = Some b" using succ by blast
        with p show "\<exists>b. Some b \<in> set ?ds \<and> (\<not> Internal (heap s ! b) \<or> reachesNonInternal s b)"
          by auto
      qed
      finally show ?thesis by blast
    qed
    ultimately show ?case by simp
  qed
qed

text \<open>
  C3. In a closed heap whose dependants graph is acyclic, \<open>Imported\<close> returns on every
  package, and it returns true exactly when a path of one or more dependants edges
  leads from the package to a package that is not internal; on a package without
  dependants it returns false.
\<close>

theorem Imported_iff_path:
  assumes "heapClosed s" and "acyclic (dependantGraph s)" and "a < length (heap s)"
  shows "\<exists>b. ImportedReturns s (Some a) b \<and>
           (b \<longleftrightarrow> (\<exists>q. (a, q) \<in> (dependantGraph s)\<^sup>+ \<and> \<not> Internal (heap s ! q))) \<and>
           (Dependants (heap s ! a) = [] \<longrightarrow> \<not> b)"
proof -
  have ret: "ImportedReturns s (Some a) (reachesNonInternal s a)"
    using Imported_reaches [OF assms] .
  have "\<not> reachesNonInternal s a" if "Dependants (heap s ! a) = []"
  proof -
    have "\<not> (\<exists>b. (a, b) \<in> dependantGraph s)"
      using that by (simp add: dependantGraph_def set_edges)
    then show ?thesis
      by (subst reachesNonInternal_unfold) blast
  qed
  with ret show ?thesis
    by (intro exI [of _ "reachesNonInternal s a"]) (simp add: reachesNonInternal_def)
qed

theorem Imported_iff_path_witness:
  "heapClosed graphState \<and> acyclic (dependantGraph graphState) \<and>
   (3::nat) < length (heap graphState) \<and>
   ImportedReturns graphState (Some 3) True \<and>
   (3, 0) \<in> (dependantGraph graphState)\<^sup>+ \<and> \<not> Internal (heap graphState ! 0) \<and>
   ImportedReturns graphState (Some 0) False \<and> Dependants (heap graphState ! 0) = []"
proof -
  have len: "(3::nat) < length (heap graphState)" "(0::nat) < length (heap graphState)"
    by (simp_all add: graphState_heap_length)
  from Imported_iff_path [OF graphState_closed graphState_acyclic_dependants len(1)]
  obtain b where b: "ImportedReturns graphState (Some 3) b"
    and reach: "b \<longleftrightarrow> (\<exists>q. (3, q) \<in> (dependantGraph graphState)\<^sup>+ \<and> \<not> Internal (heap graphState ! q))"
    by blast
  have path: "(3, 0) \<in> (dependantGraph graphState)\<^sup>+"
    unfolding graphState_dependantGraph
    by (rule trancl_trans [of _ 1]) auto
  have ni: "\<not> Internal (heap graphState ! 0)"
    by (simp add: graphState_def)
  from reach path ni have "b" by blast
  from Imported_iff_path [OF graphState_closed graphState_acyclic_dependants len(2)]
  obtain b0 where b0: "ImportedReturns graphState (Some 0) b0"
    and nodeps: "Dependants (heap graphState ! 0) = [] \<longrightarrow> \<not> b0"
    by blast
  have e: "Dependants (heap graphState ! 0) = []"
    by (simp add: graphState_def)
  with nodeps have "\<not> b0" by simp
  with b b0 \<open>b\<close> path ni e graphState_closed graphState_acyclic_dependants len
  show ?thesis by simp
qed

section \<open>Termination of the two recursions\<close>

text \<open>
  The \<open>Dependants\<close> lists mirror the \<open>Dependencies\<close> lists when every dependants edge
  is the reverse of a dependency edge, as \<open>addEdge\<close> records them.
\<close>

lemma acyclic_mirror:
  assumes "acyclic (dependencyGraph s)" "dependantGraph s \<subseteq> (dependencyGraph s)\<inverse>"
  shows "acyclic (dependantGraph s)"
  using assms by (meson acyclic_converse acyclic_subset)

text \<open>
  C9. When the import graph is acyclic, both recursive methods return on every
  package: in a closed heap whose dependency graph is acyclic and whose dependants
  edges are reversed dependency edges, \<open>DependencyDepth\<close> and \<open>Imported\<close> return a
  value for every large enough bound on the nesting of calls. Neither function
  inspects the graph for cycles.
\<close>

theorem recursion_terminates:
  assumes "heapClosed s" and "acyclic (dependencyGraph s)"
    and "dependantGraph s \<subseteq> (dependencyGraph s)\<inverse>" and "a < length (heap s)"
  shows "(\<exists>n d. \<forall>m\<ge>n. DependencyDepth m s (Some a) = Some (Inr d))
       \<and> (\<exists>n b. \<forall>m\<ge>n. Imported m s (Some a) = Some (Inr b))"
proof -
  have "\<exists>d. DependencyDepthReturns s (Some a) d"
    using DependencyDepth_total [OF assms(1,2,4)] .
  moreover have "\<exists>b. ImportedReturns s (Some a) b"
    using Imported_reaches [OF assms(1) acyclic_mirror [OF assms(2,3)] assms(4)] by blast
  ultimately show ?thesis
    unfolding DependencyDepthReturns_def ImportedReturns_def by blast
qed

theorem recursion_terminates_witness:
  "heapClosed graphState \<and> acyclic (dependencyGraph graphState) \<and>
   dependantGraph graphState \<subseteq> (dependencyGraph graphState)\<inverse> \<and>
   (0::nat) < length (heap graphState) \<and>
   (\<exists>n d. \<forall>m\<ge>n. DependencyDepth m graphState (Some 0) = Some (Inr d)) \<and>
   (\<exists>n b. \<forall>m\<ge>n. Imported m graphState (Some 0) = Some (Inr b))"
proof -
  have len: "(0::nat) < length (heap graphState)"
    by (simp add: graphState_heap_length)
  have mirror: "dependantGraph graphState \<subseteq> (dependencyGraph graphState)\<inverse>"
    by (simp add: graphState_dependantGraph graphState_dependencyGraph)
  from recursion_terminates [OF graphState_closed graphState_acyclic mirror len]
    graphState_closed graphState_acyclic mirror len
  show ?thesis by simp
qed

text \<open>
  The precondition is needed: on the package of \<open>selfImportState\<close>, which is internal
  and imports itself, neither method returns, whatever the bound.
\<close>

lemma DependencyDepth_self_import:
  "DependencyDepth n selfImportState (Some 0) = None"
proof (induction n)
  case 0
  show ?case by simp
next
  case (Suc n)
  then show ?case
    by (simp add: selfImportState_def Predeclared_def Name_def IsVendor_def)
qed

lemma Imported_self_import:
  "Imported n selfImportState (Some 0) = None"
proof (induction n)
  case 0
  show ?case by simp
next
  case (Suc n)
  then show ?case
    by (simp add: selfImportState_def)
qed

section \<open>Resolving imports: \<open>scanFileForDependencies\<close>\<close>

lemma Sort_panic: "Sort srt s li = Inl e \<Longrightarrow> e = NilPointerDereference"
  by (auto simp: Sort_def split: if_splits)

lemma DependsOn_panic: "DependsOn srt s pkg dependency = Inl e \<Longrightarrow> e = NilPointerDereference"
  by (auto simp: DependsOn_def Let_def split: option.splits sum.splits dest: Sort_panic)

text \<open>
  Whatever the sort and the state, adding the edge to an import that did not resolve
  panics: \<open>DependsOn\<close> panics in \<open>Less\<close>, or else \<open>importedPkg.Dependants\<close> dereferences nil.
\<close>

lemma addEdge_nil: "addEdge srt s pkg None = Inl NilPointerDereference"
  by (auto simp: addEdge_def split: sum.splits dest: DependsOn_panic)

lemma scanImports_unresolved:
  assumes "pkgFromImportPath s (Trim pathValue (CHR 0x22)) = None"
  shows "scanImports srt s pkg (pathValue # rest) = Inl NilPointerDereference"
  using assms by (simp add: addEdge_nil)

text \<open>
  With the default sort the first such import of a package gets as far as storing nil
  in its \<open>Dependencies\<close> before the panic.
\<close>

lemma DependsOn_nil_stored:
  "DependsOn insertionSort registeredState (Some 0) None
     = Inr (setDependencies 0 [None] registeredState)"
  by (simp add: DependsOn_def Sort_def insertionSort_def makeUnique_def setDependencies_def
      registeredState_def makeUniqueFrom.simps)

text \<open>The other caller of \<open>pkgFromImportPath\<close> tests for nil and skips the line.\<close>

lemma loadLearnedPkgs_unresolved:
  assumes "pkgFromImportPath s line = None"
  shows "loadLearnedPkgs s (line # rest) = loadLearnedPkgs s rest"
  using assms by simp

text \<open>
  C1. The claim does not hold of the code: \<open>fmt\<close> is not registered in
  \<open>registeredState\<close>, so the import resolves to nil, and scanning a file of package \<open>a\<close>
  that imports it ends in a nil pointer dereference, not in a state without the edge.
\<close>

theorem scanFileForDependencies_unresolved_import:
  "pkgFromImportPath registeredState ''fmt'' = None
   \<and> scanFileForDependencies insertionSort importsFmt registeredState ''/go/a/a.go'' (Some 0)
       = Inl NilPointerDereference"
proof -
  have join: "Join [''/go'', ''fmt''] = ''/go/fmt''"
    by (simp add: Join_def Clean_def cleanStep_def)
  have res: "pkgFromImportPath registeredState ''fmt'' = None"
    by (simp add: pkgFromImportPath_def registeredState_def HasPrefix_def join)
  have trim: "Trim (quoted ''fmt'') (CHR 0x22) = ''fmt''"
    by (simp add: Trim_def quoted_def)
  have "scanImports insertionSort registeredState (Some 0) [quoted ''fmt'']
      = Inl NilPointerDereference"
    by (rule scanImports_unresolved) (simp add: trim res)
  moreover have "Ext ''/go/a/a.go'' = ''.go''"
    by (simp add: Ext_def)
  moreover have "\<not> isTestFile (Base ''/go/a/a.go'')"
    by (simp add: Base_def isTestFile_def HasSuffix_def)
  moreover have "Base (Name registeredState (heap registeredState ! 0)) = ''a''"
    by (simp add: registeredState_def Name_def IsVendor_def Base_def)
  ultimately have "scanFileForDependencies insertionSort importsFmt registeredState
      ''/go/a/a.go'' (Some 0) = Inl NilPointerDereference"
    by (simp add: scanFileForDependencies_def importsFmt_def)
  with res show ?thesis by simp
qed

section \<open>Edge lists: \<open>DependsOn\<close>, \<open>makeUnique\<close> and the sorting of \<open>Dependants\<close>\<close>

subsection \<open>The insertion sort meets the contract\<close>

lemma mset_sink: "mset (sink lt x r) = add_mset x (mset r)"
  by (induction r) auto

lemma set_sink: "set (sink lt x r) = insert x (set r)"
  by (induction r) auto

lemma descending_sink:
  fixes key :: "ptr \<Rightarrow> string"
  assumes "sorted_wrt (\<lambda>a b. key b \<le> key a) r"
  shows "sorted_wrt (\<lambda>a b. key b \<le> key a) (sink (\<lambda>p q. key p < key q) x r)"
  using assms
proof (induction r)
  case Nil
  then show ?case by simp
next
  case (Cons y r)
  show ?case
  proof (cases "key x < key y")
    case True
    with Cons show ?thesis by (auto simp: set_sink)
  next
    case False
    then have "key y \<le> key x" by simp
    with Cons.prems show ?thesis by (auto intro: order_trans)
  qed
qed

lemma insertionSortFrom_mset:
  "mset (insertionSortFrom lt r xs) = mset r + mset xs"
  by (induction xs arbitrary: r) (simp_all add: mset_sink)

lemma insertionSortFrom_sorted:
  fixes key :: "ptr \<Rightarrow> string"
  assumes "sorted_wrt (\<lambda>a b. key b \<le> key a) r"
  shows "sorted (map key (insertionSortFrom (\<lambda>p q. key p < key q) r xs))"
  using assms
proof (induction xs arbitrary: r)
  case Nil
  then have "sorted_wrt (\<lambda>a b. key a \<le> key b) (rev r)"
    by (simp add: sorted_wrt_rev)
  then show ?case by (simp add: sorted_map)
next
  case (Cons x xs)
  then show ?case by (simp add: descending_sink)
qed

lemma insertionSort_contract: "sortContract insertionSort"
  unfolding sortContract_def insertionSort_def
  by (simp add: insertionSortFrom_mset insertionSortFrom_sorted)

subsection \<open>\<open>makeUnique\<close> removes adjacent repetitions\<close>

lemma makeUniqueFrom_eq:
  "i \<le> length li \<Longrightarrow> makeUniqueFrom i li = take i li @ remdups_adj (drop i li)"
proof (induction i li rule: makeUniqueFrom.induct)
  case (1 i li)
  show ?case
  proof (cases "i + 1 < length li")
    case False
    then have "length (drop i li) \<le> 1" by simp
    then have "remdups_adj (drop i li) = drop i li"
      by (cases "drop i li" rule: remdups_adj.cases) auto
    with False show ?thesis by (subst makeUniqueFrom.simps) simp
  next
    case True
    then obtain rest where d: "drop i li = li ! i # li ! (i + 1) # rest"
      by (metis Cons_nth_drop_Suc Suc_eq_plus1 Suc_lessD)
    then have d1: "drop (i + 1) li = li ! (i + 1) # rest"
      by (metis Suc_eq_plus1 drop_Suc list.sel(3) tl_drop)
    show ?thesis
    proof (cases "li ! i = li ! (i + 1)")
      case same: True
      let ?new = "take i li @ drop (i + 1) li"
      have len: "i \<le> length ?new" using True by simp
      have "makeUniqueFrom i li = makeUniqueFrom i ?new"
        using True same by (subst makeUniqueFrom.simps) simp
      also have "\<dots> = take i ?new @ remdups_adj (drop i ?new)"
        using "1.IH"(1) [OF True same len] .
      also have "take i ?new = take i li" using True by simp
      also have "drop i ?new = drop (i + 1) li" using True by simp
      finally show ?thesis using d d1 same by simp
    next
      case diff: False
      have "makeUniqueFrom i li = makeUniqueFrom (i + 1) li"
        using True diff by (subst makeUniqueFrom.simps) simp
      also have "\<dots> = take (i + 1) li @ remdups_adj (drop (i + 1) li)"
        using "1.IH"(2) [OF True diff] True by simp
      also have "take (i + 1) li = take i li @ [li ! i]"
        using True by (simp add: take_Suc_conv_app_nth)
      finally show ?thesis using d d1 diff by simp
    qed
  qed
qed

lemma makeUnique_eq: "makeUnique li = remdups_adj li"
  by (simp add: makeUnique_def makeUniqueFrom_eq)

lemma sorted_remdups_adj_key:
  "sorted (map key li) \<Longrightarrow> sorted (map key (remdups_adj li))"
  by (induction li rule: remdups_adj.induct) auto

lemma distinct_remdups_adj_key:
  fixes key :: "'a \<Rightarrow> string"
  assumes "sorted (map key li)" "inj_on key (set li)"
  shows "distinct (remdups_adj li)"
  using assms
proof (induction li rule: remdups_adj.induct)
  case 1
  show ?case by simp
next
  case (2 x)
  show ?case by simp
next
  case (3 x y xs)
  show ?case
  proof (cases "x = y")
    case True
    have "sorted (map key (x # xs))" using "3.prems"(1) by simp
    moreover have "inj_on key (set (x # xs))"
      using "3.prems"(2) by (rule inj_on_subset) auto
    ultimately have "distinct (remdups_adj (x # xs))"
      using "3.IH"(1) [OF True] by blast
    with True show ?thesis by simp
  next
    case False
    have "x \<notin> set (y # xs)"
    proof
      assume "x \<in> set (y # xs)"
      with False have mem: "x \<in> set xs" by simp
      from "3.prems"(1) have "key x \<le> key y" by simp
      moreover from "3.prems"(1) mem have "key y \<le> key x" by auto
      ultimately have "key x = key y" by (rule antisym)
      then have "x = y"
        by (rule inj_onD [OF "3.prems"(2)]) simp_all
      with False show False by simp
    qed
    moreover have "distinct (remdups_adj (y # xs))"
    proof -
      have "sorted (map key (y # xs))" using "3.prems"(1) by simp
      moreover have "inj_on key (set (y # xs))"
        using "3.prems"(2) by (rule inj_on_subset) auto
      ultimately show ?thesis using "3.IH"(2) [OF False] by blast
    qed
    ultimately show ?thesis using False by simp
  qed
qed

subsection \<open>Updates of one edge list\<close>

lemma Name_cong: "vendorRelPath s' = vendorRelPath s \<Longrightarrow> RelPath p' = RelPath p \<Longrightarrow> Name s' p' = Name s p"
  by (simp add: Name_def IsVendor_def)

lemma setDependencies_simps [simp]:
  "length (heap (setDependencies a li s)) = length (heap s)"
  "pkgsByLocation (setDependencies a li s) = pkgsByLocation s"
  "vendorRelPath (setDependencies a li s) = vendorRelPath s"
  "standardLibraryPath (setDependencies a li s) = standardLibraryPath s"
  "pkgsByDependencyDepth (setDependencies a li s) = pkgsByDependencyDepth s"
  by (simp_all add: setDependencies_def)

lemma setDependants_simps [simp]:
  "length (heap (setDependants a li s)) = length (heap s)"
  "pkgsByLocation (setDependants a li s) = pkgsByLocation s"
  "vendorRelPath (setDependants a li s) = vendorRelPath s"
  "standardLibraryPath (setDependants a li s) = standardLibraryPath s"
  "pkgsByDependencyDepth (setDependants a li s) = pkgsByDependencyDepth s"
  by (simp_all add: setDependants_def)

lemma heap_setDependencies:
  "b < length (heap s) \<Longrightarrow>
     heap (setDependencies a li s) ! b =
       (if b = a then (heap s ! a)\<lparr>Dependencies := li\<rparr> else heap s ! b)"
  by (simp add: setDependencies_def nth_list_update)

lemma heap_setDependants:
  "b < length (heap s) \<Longrightarrow>
     heap (setDependants a li s) ! b =
       (if b = a then (heap s ! a)\<lparr>Dependants := li\<rparr> else heap s ! b)"
  by (simp add: setDependants_def nth_list_update)

lemma setDependencies_twice [simp]:
  "setDependencies a li (setDependencies a li' s) = setDependencies a li s"
  by (cases "a < length (heap s)") (simp_all add: setDependencies_def not_less list_update_beyond)

lemma Name_setDependencies:
  "b < length (heap s) \<Longrightarrow>
     Name (setDependencies a li s) (heap (setDependencies a li s) ! b) = Name s (heap s ! b)"
  by (rule Name_cong) (simp_all add: heap_setDependencies)

lemma Name_setDependants:
  "b < length (heap s) \<Longrightarrow>
     Name (setDependants a li s) (heap (setDependants a li s) ! b) = Name s (heap s ! b)"
  by (rule Name_cong) (simp_all add: heap_setDependants)

lemma allocated_setDependencies [simp]: "allocated (setDependencies a li s) = allocated s"
  by (rule ext) (simp add: allocated_def split: option.splits)

lemma allocated_setDependants [simp]: "allocated (setDependants a li s) = allocated s"
  by (rule ext) (simp add: allocated_def split: option.splits)

lemma nameOf_setDependencies:
  "allocated s p \<Longrightarrow> nameOf (setDependencies a li s) p = nameOf s p"
  by (auto simp: nameOf_def allocated_def Name_setDependencies split: option.splits)

lemma nameOf_setDependants:
  "allocated s p \<Longrightarrow> nameOf (setDependants a li s) p = nameOf s p"
  by (auto simp: nameOf_def allocated_def Name_setDependants split: option.splits)

lemma normalised_setDependencies:
  "list_all (allocated s) xs \<Longrightarrow> normalised (setDependencies a li s) xs = normalised s xs"
  by (simp add: normalised_def list_all_iff nameOf_setDependencies cong: map_cong)

lemma normalised_setDependants:
  "list_all (allocated s) xs \<Longrightarrow> normalised (setDependants a li s) xs = normalised s xs"
  by (simp add: normalised_def list_all_iff nameOf_setDependants cong: map_cong)

lemma distinctNames_setDependencies [simp]:
  "distinctNames (setDependencies a li s) = distinctNames s"
proof -
  have "map (Name (setDependencies a li s)) (heap (setDependencies a li s)) = map (Name s) (heap s)"
    by (rule nth_equalityI) (simp_all add: Name_setDependencies)
  then show ?thesis by (simp add: distinctNames_def)
qed

lemma distinctNames_setDependants [simp]:
  "distinctNames (setDependants a li s) = distinctNames s"
proof -
  have "map (Name (setDependants a li s)) (heap (setDependants a li s)) = map (Name s) (heap s)"
    by (rule nth_equalityI) (simp_all add: Name_setDependants)
  then show ?thesis by (simp add: distinctNames_def)
qed

lemma heapClosedI:
  assumes "\<And>b. b < length (heap s) \<Longrightarrow>
      list_all (allocated s) (Dependencies (heap s ! b)) \<and>
      list_all (allocated s) (Dependants (heap s ! b))"
  shows "heapClosed s"
  unfolding heapClosed_def list_all_iff
proof
  fix p assume "p \<in> set (heap s)"
  then obtain b where "b < length (heap s)" "heap s ! b = p"
    by (auto simp: in_set_conv_nth)
  with assms [of b]
  show "(\<forall>x\<in>set (Dependencies p). allocated s x) \<and> (\<forall>x\<in>set (Dependants p). allocated s x)"
    by (simp add: list_all_iff)
qed

lemma heapClosedD:
  assumes "heapClosed s" "b < length (heap s)"
  shows "list_all (allocated s) (Dependencies (heap s ! b))"
    and "list_all (allocated s) (Dependants (heap s ! b))"
  using assms nth_mem [of b "heap s"] unfolding heapClosed_def list_all_iff by blast+

lemma heapClosed_setDependencies:
  assumes "heapClosed s" "list_all (allocated s) li"
  shows "heapClosed (setDependencies a li s)"
proof (rule heapClosedI)
  fix b assume "b < length (heap (setDependencies a li s))"
  then have b: "b < length (heap s)" by simp
  with assms heapClosedD [OF assms(1) b]
  show "list_all (allocated (setDependencies a li s)) (Dependencies (heap (setDependencies a li s) ! b)) \<and>
      list_all (allocated (setDependencies a li s)) (Dependants (heap (setDependencies a li s) ! b))"
    by (cases "b = a") (simp_all add: heap_setDependencies)
qed

lemma heapClosed_setDependants:
  assumes "heapClosed s" "list_all (allocated s) li"
  shows "heapClosed (setDependants a li s)"
proof (rule heapClosedI)
  fix b assume "b < length (heap (setDependants a li s))"
  then have b: "b < length (heap s)" by simp
  with assms heapClosedD [OF assms(1) b]
  show "list_all (allocated (setDependants a li s)) (Dependencies (heap (setDependants a li s) ! b)) \<and>
      list_all (allocated (setDependants a li s)) (Dependants (heap (setDependants a li s) ! b))"
    by (cases "b = a") (simp_all add: heap_setDependants)
qed

subsection \<open>Sorting and deduplicating a list of allocated packages\<close>

lemma Less_nameOf: "Less s = (\<lambda>p q. nameOf s p < nameOf s q)"
  by (intro ext) (simp add: Less_def nameOf_def)

lemma nameOf_inj_on:
  assumes "distinctNames s" "list_all (allocated s) li"
  shows "inj_on (nameOf s) (set li)"
proof (rule inj_onI)
  fix p q assume p: "p \<in> set li" and q: "q \<in> set li" and eq: "nameOf s p = nameOf s q"
  from assms(2) p q have "allocated s p" "allocated s q"
    by (simp_all add: list_all_iff)
  then obtain a b where ab: "p = Some a" "a < length (heap s)"
      "q = Some b" "b < length (heap s)"
    by (cases p; cases q) (simp_all add: allocated_def)
  have "(map (Name s) (heap s) ! a = map (Name s) (heap s) ! b) = (a = b)"
    by (rule nth_eq_iff_index_eq) (use assms(1) ab in \<open>simp_all add: distinctNames_def\<close>)
  with eq ab have "a = b"
    by (simp add: nameOf_def)
  with ab show "p = q" by simp
qed

lemma Sort_makeUnique:
  assumes "sortContract srt" "distinctNames s" "list_all (allocated s) li"
  shows "\<exists>li'. Sort srt s li = Inr li' \<and> set li' = set li \<and>
           normalised s (makeUnique li') \<and> set (makeUnique li') = set li"
proof -
  let ?li' = "srt (\<lambda>p q. nameOf s p < nameOf s q) li"
  have "None \<notin> set li"
    using assms(3) by (auto simp: list_all_iff allocated_def)
  then have run: "Sort srt s li = Inr ?li'"
    by (simp add: Sort_def Less_nameOf)
  from assms(1) have perm: "mset ?li' = mset li" and srtd: "sorted (map (nameOf s) ?li')"
    unfolding sortContract_def by blast+
  from perm have sets: "set ?li' = set li" by (rule mset_eq_setD)
  have "list_all (allocated s) ?li'"
    using assms(3) sets by (simp add: list_all_iff)
  then have inj: "inj_on (nameOf s) (set ?li')"
    using nameOf_inj_on [OF assms(2)] by blast
  have "normalised s (makeUnique ?li')"
    unfolding normalised_def makeUnique_eq
    using sorted_remdups_adj_key [OF srtd] distinct_remdups_adj_key [OF srtd inj] by simp
  with run sets show ?thesis by (simp add: makeUnique_eq)
qed

subsection \<open>Edge additions keep \<open>Dependencies\<close> normalised\<close>

lemma normalised_cong:
  "(\<And>p. p \<in> set xs \<Longrightarrow> nameOf s' p = nameOf s p) \<Longrightarrow> normalised s' xs = normalised s xs"
  by (simp add: normalised_def cong: map_cong)

lemma DependsOn_allocated:
  assumes contract: "sortContract srt" and closed: "heapClosed s" and dn: "distinctNames s"
    and a: "a < length (heap s)" and dep: "allocated s dependency"
  shows "\<exists>li. DependsOn srt s (Some a) dependency = Inr (setDependencies a li s) \<and>
           normalised s li \<and> set li = insert dependency (set (Dependencies (heap s ! a)))"
proof -
  let ?deps = "Dependencies (heap s ! a) @ [dependency]"
  let ?s1 = "setDependencies a ?deps s"
  have alloc: "list_all (allocated s) ?deps"
    using heapClosedD(1) [OF closed a] dep by simp
  have read: "Dependencies (heap ?s1 ! a) = ?deps"
    using a by (simp add: heap_setDependencies)
  obtain li' where li': "Sort srt ?s1 ?deps = Inr li'"
      "normalised ?s1 (makeUnique li')" "set (makeUnique li') = set ?deps"
    using Sort_makeUnique [OF contract, of ?s1 ?deps] dn alloc by auto
  have "list_all (allocated s) (makeUnique li')"
    using alloc li'(3) by (simp add: list_all_iff)
  then have "normalised s (makeUnique li')"
    using li'(2) by (simp add: normalised_setDependencies)
  moreover have "DependsOn srt s (Some a) dependency = Inr (setDependencies a (makeUnique li') s)"
    by (simp add: DependsOn_def Let_def read li'(1))
  ultimately show ?thesis using li'(3) by auto
qed

lemma addEdge_allocated:
  assumes contract: "sortContract srt" and closed: "heapClosed s" and dn: "distinctNames s"
    and norm: "list_all (\<lambda>p. normalised s (Dependencies p)) (heap s)"
    and a: "a < length (heap s)" and b: "b < length (heap s)"
  shows "\<exists>s'. addEdge srt s (Some a) (Some b) = Inr s' \<and> heapClosed s' \<and> distinctNames s' \<and>
           list_all (\<lambda>p. normalised s' (Dependencies p)) (heap s') \<and>
           length (heap s') = length (heap s) \<and> pkgsByLocation s' = pkgsByLocation s"
proof -
  have allocb: "allocated s (Some b)" and alloca: "allocated s (Some a)"
    using a b by (simp_all add: allocated_def)
  obtain li where li: "DependsOn srt s (Some a) (Some b) = Inr (setDependencies a li s)"
      "normalised s li" "set li = insert (Some b) (set (Dependencies (heap s ! a)))"
    using DependsOn_allocated [OF contract closed dn a allocb] by blast
  let ?s1 = "setDependencies a li s"
  let ?li2 = "Dependants (heap ?s1 ! b) @ [Some a]"
  let ?s2 = "setDependants b ?li2 ?s1"
  have alloc_li: "list_all (allocated s) li"
    using heapClosedD(1) [OF closed a] allocb li(3) by (simp add: list_all_iff)
  have closed1: "heapClosed ?s1"
    using closed alloc_li by (rule heapClosed_setDependencies)
  have "list_all (allocated ?s1) ?li2"
    using heapClosedD(2) [OF closed1, of b] b alloca by simp
  then have closed2: "heapClosed ?s2"
    using closed1 by (intro heapClosed_setDependants)
  have run: "addEdge srt s (Some a) (Some b) = Inr ?s2"
    by (simp add: addEdge_def li(1))
  have norm2: "list_all (\<lambda>p. normalised ?s2 (Dependencies p)) (heap ?s2)"
    unfolding list_all_length
  proof (intro allI impI)
    fix c assume "c < length (heap ?s2)"
    then have c: "c < length (heap s)" by simp
    have deps2: "Dependencies (heap ?s2 ! c) = Dependencies (heap ?s1 ! c)"
      using c by (cases "c = b") (simp_all add: heap_setDependants)
    have alloc1: "list_all (allocated ?s1) (Dependencies (heap ?s1 ! c))"
      using heapClosedD(1) [OF closed1, of c] c by simp
    have "normalised s (Dependencies (heap ?s1 ! c))"
    proof (cases "c = a")
      case True
      with li(2) c show ?thesis by (simp add: heap_setDependencies)
    next
      case False
      with norm c show ?thesis by (simp add: heap_setDependencies list_all_length)
    qed
    then have "normalised ?s1 (Dependencies (heap ?s1 ! c))"
      using alloc1 by (simp add: normalised_setDependencies)
    then show "normalised ?s2 (Dependencies (heap ?s2 ! c))"
      using alloc1 by (simp add: deps2 normalised_setDependants)
  qed
  from run closed2 dn norm2 show ?thesis by simp
qed

lemma addEdges_allocated:
  assumes contract: "sortContract srt"
  shows "heapClosed s \<Longrightarrow> distinctNames s \<Longrightarrow>
     list_all (\<lambda>p. normalised s (Dependencies p)) (heap s) \<Longrightarrow>
     list_all (\<lambda>(pkg, importedPkg). allocated s pkg \<and> allocated s importedPkg) es \<Longrightarrow>
     \<exists>s'. addEdges srt s es = Inr s' \<and> heapClosed s' \<and> distinctNames s' \<and>
          list_all (\<lambda>p. normalised s' (Dependencies p)) (heap s') \<and>
          length (heap s') = length (heap s) \<and> pkgsByLocation s' = pkgsByLocation s"
proof (induction es arbitrary: s)
  case Nil
  then show ?case by simp
next
  case (Cons e es)
  obtain pkg importedPkg where e: "e = (pkg, importedPkg)" by (cases e)
  with Cons.prems(4) obtain a b where ab: "pkg = Some a" "a < length (heap s)"
      "importedPkg = Some b" "b < length (heap s)"
    by (cases pkg; cases importedPkg) (simp_all add: allocated_def)
  obtain s1 where s1: "addEdge srt s (Some a) (Some b) = Inr s1" "heapClosed s1"
      "distinctNames s1" "list_all (\<lambda>p. normalised s1 (Dependencies p)) (heap s1)"
      "length (heap s1) = length (heap s)" "pkgsByLocation s1 = pkgsByLocation s"
    using addEdge_allocated [OF contract Cons.prems(1,2,3) ab(2,4)] by blast
  have "allocated s1 = allocated s"
    by (rule ext) (simp add: allocated_def s1(5) split: option.splits)
  then have "list_all (\<lambda>(pkg, importedPkg). allocated s1 pkg \<and> allocated s1 importedPkg) es"
    using Cons.prems(4) by simp
  from Cons.IH [OF s1(2,3,4) this] s1 e ab show ?case by auto
qed

subsection \<open>The loop of \<open>main\<close> normalises \<open>Dependants\<close>\<close>

lemma sortDependants_allocated:
  assumes contract: "sortContract srt"
  shows "heapClosed s \<Longrightarrow> distinctNames s \<Longrightarrow> list_all (allocated s) ps \<Longrightarrow>
     \<exists>s'. sortDependants srt s ps = Inr s' \<and> heapClosed s' \<and> distinctNames s' \<and>
          length (heap s') = length (heap s) \<and> pkgsByLocation s' = pkgsByLocation s \<and>
          (\<forall>c<length (heap s). Dependencies (heap s' ! c) = Dependencies (heap s ! c)) \<and>
          (\<forall>p. allocated s p \<longrightarrow> nameOf s' p = nameOf s p) \<and>
          (\<forall>c<length (heap s). normalised s (Dependants (heap s ! c)) \<longrightarrow>
               normalised s' (Dependants (heap s' ! c))) \<and>
          (\<forall>p\<in>set ps. normalised s' (Dependants (heap s' ! the p)))"
proof (induction ps arbitrary: s)
  case Nil
  then show ?case by simp
next
  case (Cons p ps)
  from Cons.prems(3) obtain a where a: "p = Some a" "a < length (heap s)"
    by (cases p) (simp_all add: allocated_def)
  let ?ds = "Dependants (heap s ! a)"
  have alloc: "list_all (allocated s) ?ds"
    using heapClosedD(2) [OF Cons.prems(1) a(2)] .
  obtain li' where li': "Sort srt s ?ds = Inr li'" "normalised s (makeUnique li')"
      "set (makeUnique li') = set ?ds"
    using Sort_makeUnique [OF contract Cons.prems(2) alloc] by blast
  let ?s1 = "setDependants a (makeUnique li') s"
  have alloc': "list_all (allocated s) (makeUnique li')"
    using alloc li'(3) by (simp add: list_all_iff)
  have closed1: "heapClosed ?s1"
    using Cons.prems(1) alloc' by (rule heapClosed_setDependants)
  have dn1: "distinctNames ?s1" using Cons.prems(2) by simp
  have ps1: "list_all (allocated ?s1) ps" using Cons.prems(3) by simp
  obtain s' where s': "sortDependants srt ?s1 ps = Inr s'" "heapClosed s'" "distinctNames s'"
      "length (heap s') = length (heap ?s1)" "pkgsByLocation s' = pkgsByLocation ?s1"
      "\<forall>c<length (heap ?s1). Dependencies (heap s' ! c) = Dependencies (heap ?s1 ! c)"
      "\<forall>p. allocated ?s1 p \<longrightarrow> nameOf s' p = nameOf ?s1 p"
      "\<forall>c<length (heap ?s1). normalised ?s1 (Dependants (heap ?s1 ! c)) \<longrightarrow>
               normalised s' (Dependants (heap s' ! c))"
      "\<forall>p\<in>set ps. normalised s' (Dependants (heap s' ! the p))"
    using Cons.IH [OF closed1 dn1 ps1] by blast
  have run: "sortDependants srt s (p # ps) = Inr s'"
    using a li'(1) s'(1) by simp
  have deps: "\<forall>c<length (heap s). Dependencies (heap s' ! c) = Dependencies (heap s ! c)"
  proof (intro allI impI)
    fix c assume c: "c < length (heap s)"
    then have "Dependencies (heap ?s1 ! c) = Dependencies (heap s ! c)"
      by (cases "c = a") (simp_all add: heap_setDependants)
    with s'(6) c show "Dependencies (heap s' ! c) = Dependencies (heap s ! c)" by simp
  qed
  have names: "\<forall>p. allocated s p \<longrightarrow> nameOf s' p = nameOf s p"
    using s'(7) by (simp add: nameOf_setDependants)
  have keep: "normalised s' (Dependants (heap s' ! c))"
    if c: "c < length (heap s)" and n: "normalised s (Dependants (heap s ! c))" for c
  proof -
    have "normalised s (Dependants (heap ?s1 ! c))"
      using c n li'(2) by (cases "c = a") (simp_all add: heap_setDependants)
    moreover have "list_all (allocated s) (Dependants (heap ?s1 ! c))"
      using heapClosedD(2) [OF closed1, of c] c by simp
    ultimately have "normalised ?s1 (Dependants (heap ?s1 ! c))"
      by (simp add: normalised_setDependants)
    with s'(8) c show ?thesis by simp
  qed
  have "normalised s' (Dependants (heap s' ! a))"
  proof -
    have "normalised s (Dependants (heap ?s1 ! a))"
      using a(2) li'(2) by (simp add: heap_setDependants)
    moreover have "list_all (allocated s) (Dependants (heap ?s1 ! a))"
      using heapClosedD(2) [OF closed1, of a] a(2) by simp
    ultimately have "normalised ?s1 (Dependants (heap ?s1 ! a))"
      by (simp add: normalised_setDependants)
    with s'(8) a(2) show ?thesis by simp
  qed
  with s'(9) a(1) have all: "\<forall>q\<in>set (p # ps). normalised s' (Dependants (heap s' ! the q))"
    by simp
  from run s'(2,3,4,5) deps names keep all show ?case
    by (intro exI [of _ s']) simp
qed

lemma pairState_scan_once:
  "scanFileForDependencies insertionSort importsB pairState ''/go/a/x.go'' (Some 0)
     = Inr (None, pairStateScanned)"
proof -
  have join: "Join [''/go'', ''b''] = ''/go/b''"
    by (simp add: Join_def Clean_def cleanStep_def)
  have res: "pkgFromImportPath pairState (Trim (quoted ''b'') (CHR 0x22)) = Some 1"
    by (simp add: pkgFromImportPath_def pairState_def HasPrefix_def join Trim_def quoted_def)
  have "DependsOn insertionSort pairState (Some 0) (Some 1) = Inr (setDependencies 0 [Some 1] pairState)"
    by (simp add: DependsOn_def Sort_def insertionSort_def makeUnique_def setDependencies_def
        pairState_def makeUniqueFrom.simps)
  then have "addEdge insertionSort pairState (Some 0) (Some 1) = Inr pairStateScanned"
    by (simp add: addEdge_def pairStateScanned_def setDependencies_def pairState_def)
  then have "scanImports insertionSort pairState (Some 0) [quoted ''b''] = Inr pairStateScanned"
    by (simp add: res)
  moreover have "Ext ''/go/a/x.go'' = ''.go''"
    by (simp add: Ext_def)
  moreover have "\<not> isTestFile (Base ''/go/a/x.go'')"
    by (simp add: Base_def isTestFile_def HasSuffix_def)
  moreover have "Base (Name pairState (heap pairState ! 0)) = ''a''"
    by (simp add: pairState_def Name_def IsVendor_def Base_def)
  ultimately show ?thesis
    by (simp add: scanFileForDependencies_def importsB_def)
qed

lemma pairState_scan_twice:
  "scanFileForDependencies insertionSort importsB pairStateScanned ''/go/a/y.go'' (Some 0)
     = Inr (None, pairStateScannedTwice)"
proof -
  have join: "Join [''/go'', ''b''] = ''/go/b''"
    by (simp add: Join_def Clean_def cleanStep_def)
  have res: "pkgFromImportPath pairStateScanned (Trim (quoted ''b'') (CHR 0x22)) = Some 1"
    by (simp add: pkgFromImportPath_def pairStateScanned_def pairState_def HasPrefix_def join
        Trim_def quoted_def)
  have "DependsOn insertionSort pairStateScanned (Some 0) (Some 1) = Inr pairStateScanned"
    by (simp add: DependsOn_def Sort_def insertionSort_def makeUnique_def setDependencies_def
        setDependants_def pairStateScanned_def pairState_def makeUniqueFrom.simps Less_def)
  then have "addEdge insertionSort pairStateScanned (Some 0) (Some 1) = Inr pairStateScannedTwice"
    by (simp add: addEdge_def pairStateScannedTwice_def pairStateScanned_def setDependencies_def
        setDependants_def pairState_def)
  then have "scanImports insertionSort pairStateScanned (Some 0) [quoted ''b'']
      = Inr pairStateScannedTwice"
    by (simp add: res)
  moreover have "Ext ''/go/a/y.go'' = ''.go''"
    by (simp add: Ext_def)
  moreover have "\<not> isTestFile (Base ''/go/a/y.go'')"
    by (simp add: Base_def isTestFile_def HasSuffix_def)
  moreover have "Base (Name pairStateScanned (heap pairStateScanned ! 0)) = ''a''"
    by (simp add: pairStateScanned_def setDependencies_def setDependants_def pairState_def
        Name_def IsVendor_def Base_def)
  ultimately show ?thesis
    by (simp add: scanFileForDependencies_def importsB_def)
qed

text \<open>
  C4, as stated, fails for \<open>Dependants\<close>: after two files of package \<open>a\<close> that each import
  \<open>b\<close> have been scanned, the \<open>Dependants\<close> of \<open>b\<close> hold the pointer to \<open>a\<close> twice.
\<close>

theorem Dependants_duplicate_counterexample:
  "scanFileForDependencies insertionSort importsB pairState ''/go/a/x.go'' (Some 0)
     = Inr (None, pairStateScanned)
   \<and> scanFileForDependencies insertionSort importsB pairStateScanned ''/go/a/y.go'' (Some 0)
     = Inr (None, pairStateScannedTwice)
   \<and> Dependants (heap pairStateScannedTwice ! 1) = [Some 0, Some 0]"
  using pairState_scan_once pairState_scan_twice
  by (simp add: pairStateScannedTwice_def pairStateScanned_def setDependants_def
      setDependencies_def pairState_def)

text \<open>
  C4, amended. Let the display names of the allocated packages be pairwise different,
  and start from packages without edges. After any sequence of edge additions between
  allocated packages, every \<open>Dependencies\<close> list is sorted by display name and holds no
  pointer twice. The \<open>Dependants\<close> lists are only appended to by the additions; after the
  loop of \<open>main\<close> that sorts and deduplicates them, the \<open>Dependants\<close> of every registered
  package are sorted by display name and hold no pointer twice, and the \<open>Dependencies\<close>
  are still so.
\<close>

theorem edge_lists_normalised:
  assumes "sortContract srt" and "distinctNames s" and "freshEdges s" and "registryClosed s"
    and "list_all (\<lambda>(pkg, importedPkg). allocated s pkg \<and> allocated s importedPkg) es"
  shows "\<exists>s1 s2. addEdges srt s es = Inr s1 \<and>
           list_all (\<lambda>p. normalised s1 (Dependencies p)) (heap s1) \<and>
           sortDependants srt s1 (map snd (pkgsByLocation s1)) = Inr s2 \<and>
           list_all (\<lambda>p. normalised s2 (Dependencies p)) (heap s2) \<and>
           list_all (\<lambda>p. normalised s2 (Dependants (heap s2 ! the p)))
             (map snd (pkgsByLocation s2))"
proof -
  have closed: "heapClosed s"
    using assms(3) by (auto simp: freshEdges_def heapClosed_def list_all_iff)
  have norm: "list_all (\<lambda>p. normalised s (Dependencies p)) (heap s)"
    using assms(3) by (auto simp: freshEdges_def normalised_def list_all_iff)
  obtain s1 where s1: "addEdges srt s es = Inr s1" "heapClosed s1" "distinctNames s1"
      "list_all (\<lambda>p. normalised s1 (Dependencies p)) (heap s1)"
      "length (heap s1) = length (heap s)" "pkgsByLocation s1 = pkgsByLocation s"
    using addEdges_allocated [OF assms(1) closed assms(2) norm assms(5)] by blast
  have "allocated s1 = allocated s"
    by (rule ext) (simp add: allocated_def s1(5) split: option.splits)
  then have reg: "list_all (allocated s1) (map snd (pkgsByLocation s1))"
    using assms(4) by (simp add: registryClosed_def s1(6))
  obtain s2 where s2: "sortDependants srt s1 (map snd (pkgsByLocation s1)) = Inr s2"
      "length (heap s2) = length (heap s1)" "pkgsByLocation s2 = pkgsByLocation s1"
      "\<forall>c<length (heap s1). Dependencies (heap s2 ! c) = Dependencies (heap s1 ! c)"
      "\<forall>p. allocated s1 p \<longrightarrow> nameOf s2 p = nameOf s1 p"
      "\<forall>p\<in>set (map snd (pkgsByLocation s1)). normalised s2 (Dependants (heap s2 ! the p))"
    using sortDependants_allocated [OF assms(1) s1(2,3) reg] by blast
  have "list_all (\<lambda>p. normalised s2 (Dependencies p)) (heap s2)"
    unfolding list_all_length
  proof (intro allI impI)
    fix c assume "c < length (heap s2)"
    then have c: "c < length (heap s1)" by (simp add: s2(2))
    have "list_all (allocated s1) (Dependencies (heap s1 ! c))"
      using heapClosedD(1) [OF s1(2) c] .
    then have "normalised s2 (Dependencies (heap s1 ! c)) = normalised s1 (Dependencies (heap s1 ! c))"
      using s2(5) by (intro normalised_cong) (simp add: list_all_iff)
    moreover have "normalised s1 (Dependencies (heap s1 ! c))"
      using s1(4) c by (simp add: list_all_length)
    ultimately show "normalised s2 (Dependencies (heap s2 ! c))"
      using s2(4) c by simp
  qed
  moreover have "list_all (\<lambda>p. normalised s2 (Dependants (heap s2 ! the p)))
      (map snd (pkgsByLocation s2))"
    using s2(6) by (simp add: list_all_iff s2(3))
  ultimately show ?thesis using s1(1,4) s2(1) by blast
qed

theorem edge_lists_normalised_witness:
  "sortContract insertionSort \<and> distinctNames pairState \<and> freshEdges pairState \<and>
   registryClosed pairState \<and>
   (\<exists>s1 s2. addEdges insertionSort pairState [(Some 0, Some 1), (Some 0, Some 1)] = Inr s1 \<and>
      list_all (\<lambda>p. normalised s1 (Dependencies p)) (heap s1) \<and>
      sortDependants insertionSort s1 (map snd (pkgsByLocation s1)) = Inr s2 \<and>
      list_all (\<lambda>p. normalised s2 (Dependencies p)) (heap s2) \<and>
      list_all (\<lambda>p. normalised s2 (Dependants (heap s2 ! the p)))
        (map snd (pkgsByLocation s2)))"
proof -
  have dn: "distinctNames pairState"
    by (simp add: distinctNames_def pairState_def Name_def IsVendor_def)
  have fresh: "freshEdges pairState"
    by (simp add: freshEdges_def pairState_def)
  have reg: "registryClosed pairState"
    by (simp add: registryClosed_def allocated_def pairState_def)
  have es: "list_all (\<lambda>(pkg, importedPkg). allocated pairState pkg \<and> allocated pairState importedPkg)
      [(Some 0, Some 1), (Some 0, Some 1)]"
    by (simp add: allocated_def pairState_def)
  from edge_lists_normalised [OF insertionSort_contract dn fresh reg es]
    insertionSort_contract dn fresh reg
  show ?thesis by simp
qed

text \<open>
  Why the display names have to differ: \<open>makeUnique\<close> compares neighbours only, and
  two packages of the same name may stand between two occurrences of a pointer. The
  insertion sort leaves the list \<open>x, vendor/x, x\<close> as it is, and so does \<open>makeUnique\<close>.
\<close>

lemma Dependencies_same_name:
  "\<not> distinctNames sameNameState"
  "case addEdges insertionSort sameNameState [(Some 0, Some 1), (Some 0, Some 2), (Some 0, Some 1)] of
     Inl e \<Rightarrow> False
   | Inr s \<Rightarrow> Dependencies (heap s ! 0) = [Some 1, Some 2, Some 1]"
  by code_simp+

subsection \<open>Edge additions record every edge in both directions\<close>

lemma addEdge_graphs:
  assumes contract: "sortContract srt" and closed: "heapClosed s" and dn: "distinctNames s"
    and a: "a < length (heap s)" and b: "b < length (heap s)"
    and run: "addEdge srt s (Some a) (Some b) = Inr s'"
  shows "dependencyGraph s' = insert (a, b) (dependencyGraph s)"
    and "dependantGraph s' = insert (b, a) (dependantGraph s)"
proof -
  have allocb: "allocated s (Some b)"
    using b by (simp add: allocated_def)
  obtain li where li: "DependsOn srt s (Some a) (Some b) = Inr (setDependencies a li s)"
      "set li = insert (Some b) (set (Dependencies (heap s ! a)))"
    using DependsOn_allocated [OF contract closed dn a allocb] by blast
  let ?s1 = "setDependencies a li s"
  let ?li2 = "Dependants (heap ?s1 ! b) @ [Some a]"
  have s': "s' = setDependants b ?li2 ?s1"
    using run by (simp add: addEdge_def li(1))
  have deps: "Dependencies (heap s' ! c) = (if c = a then li else Dependencies (heap s ! c))"
    if "c < length (heap s)" for c
    using that by (cases "c = b") (simp_all add: s' heap_setDependants heap_setDependencies)
  have dants: "Dependants (heap s' ! c) =
      (if c = b then Dependants (heap s ! b) @ [Some a] else Dependants (heap s ! c))"
    if "c < length (heap s)" for c
    using that by (cases "c = a") (simp_all add: s' heap_setDependants heap_setDependencies)
  have len: "length (heap s') = length (heap s)"
    by (simp add: s')
  show "dependencyGraph s' = insert (a, b) (dependencyGraph s)"
    unfolding dependencyGraph_def set_edges len
    using a li(2) by (auto simp: deps split: if_splits)
  show "dependantGraph s' = insert (b, a) (dependantGraph s)"
    unfolding dependantGraph_def set_edges len
    using b by (auto simp: dants split: if_splits)
qed

lemma addEdges_mirror:
  assumes contract: "sortContract srt"
  shows "heapClosed s \<Longrightarrow> distinctNames s \<Longrightarrow>
     list_all (\<lambda>p. normalised s (Dependencies p)) (heap s) \<Longrightarrow>
     list_all (\<lambda>(pkg, importedPkg). allocated s pkg \<and> allocated s importedPkg) es \<Longrightarrow>
     dependantGraph s \<subseteq> (dependencyGraph s)\<inverse> \<Longrightarrow>
     addEdges srt s es = Inr s' \<Longrightarrow>
     dependantGraph s' \<subseteq> (dependencyGraph s')\<inverse>"
proof (induction es arbitrary: s)
  case Nil
  then show ?case by simp
next
  case (Cons e es)
  obtain pkg importedPkg where e: "e = (pkg, importedPkg)" by (cases e)
  with Cons.prems(4) obtain a b where ab: "pkg = Some a" "a < length (heap s)"
      "importedPkg = Some b" "b < length (heap s)"
    by (cases pkg; cases importedPkg) (simp_all add: allocated_def)
  obtain s1 where s1: "addEdge srt s (Some a) (Some b) = Inr s1" "heapClosed s1"
      "distinctNames s1" "list_all (\<lambda>p. normalised s1 (Dependencies p)) (heap s1)"
      "length (heap s1) = length (heap s)"
    using addEdge_allocated [OF contract Cons.prems(1,2,3) ab(2,4)] by blast
  have "allocated s1 = allocated s"
    by (rule ext) (simp add: allocated_def s1(5) split: option.splits)
  then have es: "list_all (\<lambda>(pkg, importedPkg). allocated s1 pkg \<and> allocated s1 importedPkg) es"
    using Cons.prems(4) by simp
  have mirror: "dependantGraph s1 \<subseteq> (dependencyGraph s1)\<inverse>"
    using addEdge_graphs [OF contract Cons.prems(1,2) ab(2,4) s1(1)] Cons.prems(5) by auto
  have "addEdges srt s1 es = Inr s'"
    using Cons.prems(6) e ab s1(1) by simp
  from Cons.IH [OF s1(2,3,4) es mirror this] show ?case .
qed

section \<open>The report: \<open>sortByDependencyDepth\<close> and \<open>printPkgs\<close>\<close>

lemma writeAll_append:
  "writeAll n s (xs @ ys) =
     (case writeAll n s xs of
        None \<Rightarrow> None
      | Some (Inl e) \<Rightarrow> Some (Inl e)
      | Some (Inr rows) \<Rightarrow>
          (case writeAll n s ys of
             None \<Rightarrow> None
           | Some (Inl e) \<Rightarrow> Some (Inl e)
           | Some (Inr rows1) \<Rightarrow> Some (Inr (rows @ rows1))))"
  by (induction xs) (auto split: option.splits sum.splits)

lemma first_absent_depth:
  fixes al :: "(int \<times> 'v) list"
  shows "\<exists>k. (\<forall>d<k. map_of al (int d) \<noteq> None) \<and> map_of al (int k) = None"
proof -
  have "\<exists>k. map_of al (int k) = None"
  proof (rule ccontr)
    assume "\<not> (\<exists>k. map_of al (int k) = None)"
    then have "range int \<subseteq> dom (map_of al)" by auto
    then have "finite (range int)"
      using finite_dom_map_of finite_subset by blast
    then have "finite (UNIV :: nat set)"
      by (rule finite_imageD) simp
    then show False by simp
  qed
  then obtain k0 where k0: "map_of al (int k0) = None" by blast
  define k where "k = (LEAST k. map_of al (int k) = None)"
  have "map_of al (int k) = None"
    unfolding k_def using k0 by (rule LeastI)
  moreover have "\<forall>d<k. map_of al (int d) \<noteq> None"
    unfolding k_def using not_less_Least by blast
  ultimately show ?thesis by blast
qed

lemma printLoop_visits:
  assumes "\<forall>d<k. map_of (pkgsByDependencyDepth s) (depth + int d) \<noteq> None"
    and "map_of (pkgsByDependencyDepth s) (depth + int k) = None"
  shows "printLoop n s depth =
           writeAll n s
             (concat (map (\<lambda>d. the (map_of (pkgsByDependencyDepth s) (depth + int d))) [0..<k]))"
  using assms
proof (induction k arbitrary: depth)
  case 0
  then show ?case by (subst printLoop.simps) simp
next
  case (Suc k)
  let ?b = "\<lambda>d. the (map_of (pkgsByDependencyDepth s) (depth + int d))"
  from Suc.prems(1) obtain pkgLi where li: "map_of (pkgsByDependencyDepth s) depth = Some pkgLi"
    by force
  have "\<forall>d<k. map_of (pkgsByDependencyDepth s) (depth + 1 + int d) \<noteq> None"
  proof (intro allI impI)
    fix d assume "d < k"
    then have "Suc d < Suc k" by simp
    then have "map_of (pkgsByDependencyDepth s) (depth + int (Suc d)) \<noteq> None"
      using Suc.prems(1) by blast
    then show "map_of (pkgsByDependencyDepth s) (depth + 1 + int d) \<noteq> None"
      by (simp add: add.assoc)
  qed
  moreover have "map_of (pkgsByDependencyDepth s) (depth + 1 + int k) = None"
    using Suc.prems(2) by (simp add: add.assoc)
  ultimately have rest: "printLoop n s (depth + 1) =
      writeAll n s (concat (map (\<lambda>d. the (map_of (pkgsByDependencyDepth s) (depth + 1 + int d))) [0..<k]))"
    by (rule Suc.IH)
  have shift: "map (\<lambda>d. the (map_of (pkgsByDependencyDepth s) (depth + 1 + int d))) [0..<k]
      = map ?b (map Suc [0..<k])"
    by (simp add: add.assoc)
  have "[0..<Suc k] = 0 # map Suc [0..<k]"
    by (simp add: upt_conv_Cons map_Suc_upt del: upt_Suc)
  then have "concat (map ?b [0..<Suc k]) = pkgLi @ concat (map ?b (map Suc [0..<k]))"
    using li by (simp del: upt_Suc)
  then have "writeAll n s (concat (map ?b [0..<Suc k]))
      = (case writeAll n s pkgLi of
           None \<Rightarrow> None
         | Some (Inl e) \<Rightarrow> Some (Inl e)
         | Some (Inr rows) \<Rightarrow>
             (case printLoop n s (depth + 1) of
                None \<Rightarrow> None
              | Some (Inl e) \<Rightarrow> Some (Inl e)
              | Some (Inr rows1) \<Rightarrow> Some (Inr (rows @ rows1))))"
    by (simp only: writeAll_append rest shift)
  also have "\<dots> = printLoop n s depth"
    using li by (subst (2) printLoop.simps) simp
  finally show ?case by simp
qed

lemma printPkgs_visits:
  "\<exists>k. (\<forall>d<k. map_of (pkgsByDependencyDepth s) (int d) \<noteq> None) \<and>
        map_of (pkgsByDependencyDepth s) (int k) = None \<and>
        printPkgs n s =
          writeAll n s (concat (map (\<lambda>d. the (map_of (pkgsByDependencyDepth s) (int d))) [0..<k]))"
proof -
  obtain k where k: "\<forall>d<k. map_of (pkgsByDependencyDepth s) (int d) \<noteq> None"
      "map_of (pkgsByDependencyDepth s) (int k) = None"
    using first_absent_depth by blast
  then have "printLoop n s 0 =
      writeAll n s (concat (map (\<lambda>d. the (map_of (pkgsByDependencyDepth s) (0 + int d))) [0..<k]))"
    by (intro printLoop_visits) simp_all
  with k show ?thesis by (auto simp: printPkgs_def)
qed

lemma sortLoop_sorted:
  assumes "sortContract srt" "sortLoop srt s buckets = Inr buckets1"
  shows "list_all (\<lambda>(depth, li). sorted (map (nameOf s) li)) buckets1"
  using assms(2)
proof (induction buckets arbitrary: buckets1)
  case Nil
  then show ?case by simp
next
  case (Cons b buckets)
  obtain depth li where b: "b = (depth, li)" by (cases b)
  from Cons.prems b obtain li1 rest1 where r: "Sort srt s li = Inr li1"
      "sortLoop srt s buckets = Inr rest1" "buckets1 = (depth, li1) # rest1"
    by (auto split: sum.splits)
  from r(1) have "li1 = srt (\<lambda>p q. nameOf s p < nameOf s q) li"
    by (auto simp: Sort_def Less_nameOf split: if_splits)
  then have "sorted (map (nameOf s) li1)"
    using assms(1) unfolding sortContract_def by blast
  with Cons.IH [OF r(2)] r(3) show ?case by simp
qed

lemma bucketLoop_heap:
  "bucketLoop n s ps = Some (Inr s') \<Longrightarrow> heap s' = heap s \<and> vendorRelPath s' = vendorRelPath s"
proof (induction ps arbitrary: s)
  case Nil
  then show ?case by simp
next
  case (Cons p ps)
  from Cons.prems obtain depth where d: "DependencyDepth n s p = Some (Inr depth)"
    by (auto split: option.splits sum.splits)
  let ?s1 = "s\<lparr>pkgsByDependencyDepth :=
      AList.update depth ((case map_of (pkgsByDependencyDepth s) depth of None \<Rightarrow> [] | Some li \<Rightarrow> li) @ [p])
        (pkgsByDependencyDepth s)\<rparr>"
  from Cons.prems d have "bucketLoop n ?s1 ps = Some (Inr s')"
    by (simp add: Let_def)
  from Cons.IH [OF this] show ?case by simp
qed

lemma nameOf_cong:
  "heap s' = heap s \<Longrightarrow> vendorRelPath s' = vendorRelPath s \<Longrightarrow> nameOf s' = nameOf s"
  by (intro ext) (simp add: nameOf_def Name_def IsVendor_def)

text \<open>
  Whenever \<open>sortByDependencyDepth\<close> returns, its buckets are sorted by display name,
  and \<open>printPkgs\<close> writes the buckets \<open>0, \<dots>, k - 1\<close> up to the first missing depth.
\<close>

lemma printPkgs_sorted_buckets:
  assumes "sortContract srt" and "sortByDependencyDepth n srt s = Some (Inr s')"
  shows "\<exists>k. (\<forall>d<k. \<exists>li. map_of (pkgsByDependencyDepth s') (int d) = Some li \<and>
                     sorted (map (nameOf s') li)) \<and>
             map_of (pkgsByDependencyDepth s') (int k) = None \<and>
             printPkgs m s' =
               writeAll m s'
                 (concat (map (\<lambda>d. the (map_of (pkgsByDependencyDepth s') (int d))) [0..<k]))"
proof -
  from assms(2) obtain s1 buckets where s1: "bucketLoop n s (map snd (pkgsByLocation s)) = Some (Inr s1)"
      "sortLoop srt s1 (pkgsByDependencyDepth s1) = Inr buckets"
      "s' = s1\<lparr>pkgsByDependencyDepth := buckets\<rparr>"
    by (auto simp: sortByDependencyDepth_def split: option.splits sum.splits)
  have names: "nameOf s' = nameOf s1"
    using s1(3) by (intro nameOf_cong) simp_all
  have srtd: "list_all (\<lambda>(depth, li). sorted (map (nameOf s') li)) (pkgsByDependencyDepth s')"
  proof -
    have "pkgsByDependencyDepth s' = buckets" using s1(3) by simp
    then show ?thesis
      using sortLoop_sorted [OF assms(1) s1(2)] by (simp only: names)
  qed
  obtain k where k: "\<forall>d<k. map_of (pkgsByDependencyDepth s') (int d) \<noteq> None"
      "map_of (pkgsByDependencyDepth s') (int k) = None"
      "printPkgs m s' =
         writeAll m s' (concat (map (\<lambda>d. the (map_of (pkgsByDependencyDepth s') (int d))) [0..<k]))"
    using printPkgs_visits by blast
  have "\<forall>d<k. \<exists>li. map_of (pkgsByDependencyDepth s') (int d) = Some li \<and> sorted (map (nameOf s') li)"
  proof (intro allI impI)
    fix d assume "d < k"
    with k(1) obtain li where li: "map_of (pkgsByDependencyDepth s') (int d) = Some li"
      by auto
    then have "(int d, li) \<in> set (pkgsByDependencyDepth s')"
      by (rule map_of_SomeD)
    with srtd have "sorted (map (nameOf s') li)"
      by (auto simp: list_all_iff)
    with li show "\<exists>li. map_of (pkgsByDependencyDepth s') (int d) = Some li \<and> sorted (map (nameOf s') li)"
      by blast
  qed
  with k(2,3) show ?thesis by blast
qed

text \<open>
  The report of \<open>graphState\<close>: the bucket of depth \<open>0\<close> in the order \<open>b\<close>,
  \<open>golang_org/x/net\<close>, \<open>internal/x\<close>, the last of which is internal and not imported
  and so writes nothing; then the bucket of depth \<open>1\<close>; the bucket of depth \<open>-1\<close> with
  \<open>unsafe\<close> is not written.
\<close>

lemma graphState_report:
  "printPkgs 3 graphStateBucketed =
     Some (Inr [firstRow ''b'' 0 ''imported'' ''unsafe'',
                firstRow ''golang_org/x/net'' 0 ''imported'' ''unsafe'',
                firstRow ''a'' 1 ''unimported'' ''b *'',
                subsequentRows ''golang_org/x/net *''])"
  by code_simp

text \<open>A gap ends the report: with buckets at the depths \<open>0\<close> and \<open>2\<close> only, the second is not written.\<close>

lemma printPkgs_gap:
  "printPkgs 3 (graphState\<lparr>pkgsByDependencyDepth := [(0, [Some 1]), (2, [Some 0])]\<rparr>) =
     Some (Inr [firstRow ''b'' 0 ''imported'' ''unsafe''])"
  by code_simp

subsection \<open>The report is produced\<close>

text \<open>
  The analyses read the heap and \<open>vendorRelPath\<close> only, so filing packages into buckets
  does not change what they return.
\<close>

lemma Predeclared_cong:
  "vendorRelPath s' = vendorRelPath s \<Longrightarrow> Predeclared s' p = Predeclared s p"
  by (simp add: Predeclared_def Name_cong [of s' s p p])

lemma DependencyDepth_cong:
  assumes "heap s' = heap s" "vendorRelPath s' = vendorRelPath s"
  shows "DependencyDepth n s' p = DependencyDepth n s p"
proof (induction n arbitrary: p)
  case 0
  show ?case by simp
next
  case (Suc n)
  then have "(\<lambda>p. DependencyDepth n s' p) = (\<lambda>p. DependencyDepth n s p)"
    by (intro ext)
  then show ?case
    by (simp add: assms Predeclared_cong [OF assms(2)] split: option.splits)
qed

lemma anyNonInternal_cong: "heap s' = heap s \<Longrightarrow> anyNonInternal s' ds = anyNonInternal s ds"
  by (induction ds) (simp_all split: option.splits)

lemma Imported_cong:
  assumes "heap s' = heap s"
  shows "Imported n s' p = Imported n s p"
proof (induction n arbitrary: p)
  case 0
  show ?case by simp
next
  case (Suc n)
  then have "(\<lambda>p. Imported n s' p) = (\<lambda>p. Imported n s p)"
    by (intro ext)
  then show ?case
    by (simp add: assms anyNonInternal_cong [OF assms]
        cong: option.case_cong sum.case_cong bool.case_cong)
qed

lemma writeRows_cong:
  assumes "heap s' = heap s" "vendorRelPath s' = vendorRelPath s"
  shows "writeRows s' f i ds = writeRows s f i ds"
  by (induction ds arbitrary: i)
     (simp_all add: assms(1) Predeclared_cong [OF assms(2)] Name_cong [OF assms(2) refl] Let_def
        cong: sum.case_cong split: option.splits)

lemma Write_cong:
  assumes "heap s' = heap s" "vendorRelPath s' = vendorRelPath s"
  shows "Write n s' p = Write n s p"
  by (simp add: Write_def Imported_cong [OF assms(1)] DependencyDepth_cong [OF assms]
      writeRows_cong [OF assms] Name_cong [OF assms(2) refl] assms(1)
      cong: option.case_cong sum.case_cong if_cong)

lemma writeAll_cong:
  assumes "heap s' = heap s" "vendorRelPath s' = vendorRelPath s"
  shows "writeAll n s' ps = writeAll n s ps"
  by (induction ps) (simp_all add: Write_cong [OF assms] cong: option.case_cong sum.case_cong)

text \<open>One bound on the nesting serves all packages of the heap.\<close>

lemma uniform_bound:
  fixes k :: nat and P :: "nat \<Rightarrow> nat \<Rightarrow> bool"
  assumes "\<forall>a<k. \<exists>N. \<forall>n\<ge>N. P a n"
  shows "\<exists>N. \<forall>a<k. \<forall>n\<ge>N. P a n"
  using assms
proof (induction k)
  case 0
  show ?case by simp
next
  case (Suc k)
  then obtain N where N: "\<forall>a<k. \<forall>n\<ge>N. P a n" by auto
  from Suc.prems obtain M where M: "\<forall>n\<ge>M. P k n" by auto
  have "\<forall>a<Suc k. \<forall>n\<ge>max N M. P a n"
    using N M by (auto simp: less_Suc_eq)
  then show ?case by blast
qed

lemma DependencyDepth_bound:
  assumes "heapClosed s" "acyclic (dependencyGraph s)"
  shows "\<exists>N. \<forall>a<length (heap s). \<forall>n\<ge>N. \<exists>d. DependencyDepth n s (Some a) = Some (Inr d)"
proof (rule uniform_bound, intro allI impI)
  fix a assume "a < length (heap s)"
  then obtain d where "DependencyDepthReturns s (Some a) d"
    using DependencyDepth_total [OF assms] by blast
  then show "\<exists>N. \<forall>n\<ge>N. \<exists>d. DependencyDepth n s (Some a) = Some (Inr d)"
    unfolding DependencyDepthReturns_def by blast
qed

lemma Imported_bound:
  assumes "heapClosed s" "acyclic (dependantGraph s)"
  shows "\<exists>N. \<forall>a<length (heap s). \<forall>n\<ge>N. \<exists>b. Imported n s (Some a) = Some (Inr b)"
proof (rule uniform_bound, intro allI impI)
  fix a assume "a < length (heap s)"
  then have "ImportedReturns s (Some a) (reachesNonInternal s a)"
    using Imported_reaches [OF assms] by blast
  then show "\<exists>N. \<forall>n\<ge>N. \<exists>b. Imported n s (Some a) = Some (Inr b)"
    unfolding ImportedReturns_def by blast
qed

lemma set_update_cases:
  "(k', v') \<in> set (AList.update k v al) \<Longrightarrow> (k', v') = (k, v) \<or> (k', v') \<in> set al"
  by (induction al) (auto split: if_splits)

lemma bucketLoop_total:
  assumes "\<forall>p\<in>set ps. \<exists>d. DependencyDepth n s p = Some (Inr d)"
    and "\<forall>(d, li)\<in>set (pkgsByDependencyDepth s). set li \<subseteq> A"
    and "set ps \<subseteq> A"
  shows "\<exists>s'. bucketLoop n s ps = Some (Inr s') \<and> heap s' = heap s \<and>
           vendorRelPath s' = vendorRelPath s \<and>
           (\<forall>(d, li)\<in>set (pkgsByDependencyDepth s'). set li \<subseteq> A)"
  using assms
proof (induction ps arbitrary: s)
  case Nil
  then show ?case by simp
next
  case (Cons p ps)
  from Cons.prems(1) obtain depth where d: "DependencyDepth n s p = Some (Inr depth)"
    by auto
  define li where "li = (case map_of (pkgsByDependencyDepth s) depth of None \<Rightarrow> [] | Some li \<Rightarrow> li)"
  define s1 where "s1 = s\<lparr>pkgsByDependencyDepth :=
      AList.update depth (li @ [p]) (pkgsByDependencyDepth s)\<rparr>"
  have same: "heap s1 = heap s" "vendorRelPath s1 = vendorRelPath s"
    by (simp_all add: s1_def)
  have step: "bucketLoop n s (p # ps) = bucketLoop n s1 ps"
    using d by (simp add: s1_def li_def Let_def)
  have "set li \<subseteq> A"
  proof (cases "map_of (pkgsByDependencyDepth s) depth")
    case None
    then show ?thesis by (simp add: li_def)
  next
    case (Some l)
    then have "(depth, l) \<in> set (pkgsByDependencyDepth s)" by (rule map_of_SomeD)
    with Cons.prems(2) Some show ?thesis by (auto simp: li_def)
  qed
  then have new: "set (li @ [p]) \<subseteq> A" using Cons.prems(3) by simp
  have b1: "\<forall>(d, li)\<in>set (pkgsByDependencyDepth s1). set li \<subseteq> A"
  proof (clarify)
    fix d' l x assume mem: "(d', l) \<in> set (pkgsByDependencyDepth s1)" and x: "x \<in> set l"
    from mem have "(d', l) = (depth, li @ [p]) \<or> (d', l) \<in> set (pkgsByDependencyDepth s)"
      unfolding s1_def by (auto dest: set_update_cases)
    with new Cons.prems(2) x show "x \<in> A" by auto
  qed
  have "\<forall>q\<in>set ps. \<exists>d. DependencyDepth n s1 q = Some (Inr d)"
    using Cons.prems(1) by (simp add: DependencyDepth_cong [OF same])
  from Cons.IH [OF this b1] Cons.prems(3) step same show ?case by auto
qed

lemma sortLoop_total:
  assumes "sortContract srt" and "\<forall>(d, li)\<in>set buckets. list_all (allocated s) li"
  shows "\<exists>buckets1. sortLoop srt s buckets = Inr buckets1 \<and>
           (\<forall>(d, li)\<in>set buckets1. list_all (allocated s) li)"
  using assms(2)
proof (induction buckets)
  case Nil
  show ?case by simp
next
  case (Cons b buckets)
  obtain depth li where b: "b = (depth, li)" by (cases b)
  with Cons.prems have alloc: "list_all (allocated s) li" by simp
  then have "None \<notin> set li" by (auto simp: list_all_iff allocated_def)
  then have run: "Sort srt s li = Inr (srt (\<lambda>p q. nameOf s p < nameOf s q) li)"
    by (simp add: Sort_def Less_nameOf)
  have "mset (srt (\<lambda>p q. nameOf s p < nameOf s q) li) = mset li"
    using assms(1) unfolding sortContract_def by blast
  then have "set (srt (\<lambda>p q. nameOf s p < nameOf s q) li) = set li"
    by (rule mset_eq_setD)
  with alloc have alloc1: "list_all (allocated s) (srt (\<lambda>p q. nameOf s p < nameOf s q) li)"
    by (simp add: list_all_iff)
  from Cons.IH Cons.prems obtain rest1 where rest: "sortLoop srt s buckets = Inr rest1"
      "\<forall>(d, li)\<in>set rest1. list_all (allocated s) li"
    by auto
  with run alloc1 b show ?case by simp
qed

lemma writeRows_total:
  "list_all (allocated s) ds \<Longrightarrow> \<exists>rows. writeRows s f i ds = Inr rows"
proof (induction ds arbitrary: i)
  case Nil
  show ?case by simp
next
  case (Cons p ds)
  then obtain b where "p = Some b" by (cases p) (simp_all add: allocated_def)
  moreover from Cons obtain rows where "writeRows s f (i + 1) ds = Inr rows" by auto
  ultimately show ?case by (simp add: Let_def)
qed

lemma Write_total:
  assumes "heapClosed s" "a < length (heap s)"
    and "Imported n s (Some a) = Some (Inr b)" "DependencyDepth n s (Some a) = Some (Inr d)"
  shows "\<exists>rows. Write n s (Some a) = Some (Inr rows)"
proof -
  obtain rows where "writeRows s (firstRow (Name s (heap s ! a)) d
      (if \<not> b then ''unimported'' else ''imported'')) 0 (Dependencies (heap s ! a)) = Inr rows"
    using writeRows_total [OF heapClosedD(1) [OF assms(1,2)]] by blast
  with assms(3,4) show ?thesis
    by (simp add: Write_def Let_def)
qed

lemma writeAll_total:
  "\<forall>p\<in>set ps. \<exists>rows. Write n s p = Some (Inr rows) \<Longrightarrow> \<exists>rows. writeAll n s ps = Some (Inr rows)"
proof (induction ps)
  case Nil
  show ?case by simp
next
  case (Cons p ps)
  then obtain rows rows1 where "Write n s p = Some (Inr rows)" "writeAll n s ps = Some (Inr rows1)"
    by auto
  then show ?case by simp
qed

text \<open>
  On a closed heap with acyclic graphs, a registry of allocated packages and an empty
  bucket map, as \<open>main\<close> has them, both steps of the report return for every large
  enough bound on the nesting of calls.
\<close>

lemma report_total:
  assumes contract: "sortContract srt" and closed: "heapClosed s"
    and acyc: "acyclic (dependencyGraph s)" "acyclic (dependantGraph s)"
    and reg: "registryClosed s" and empty: "pkgsByDependencyDepth s = []"
  shows "\<exists>N. \<forall>n\<ge>N. \<exists>s' rows. sortByDependencyDepth n srt s = Some (Inr s') \<and>
           printPkgs n s' = Some (Inr rows)"
proof -
  obtain N1 where N1: "\<forall>a<length (heap s). \<forall>n\<ge>N1. \<exists>d. DependencyDepth n s (Some a) = Some (Inr d)"
    using DependencyDepth_bound [OF closed acyc(1)] by blast
  obtain N2 where N2: "\<forall>a<length (heap s). \<forall>n\<ge>N2. \<exists>b. Imported n s (Some a) = Some (Inr b)"
    using Imported_bound [OF closed acyc(2)] by blast
  have "\<exists>s' rows. sortByDependencyDepth n srt s = Some (Inr s') \<and> printPkgs n s' = Some (Inr rows)"
    if n: "max N1 N2 \<le> n" for n
  proof -
    let ?A = "{p. allocated s p}"
    have depth: "\<exists>d. DependencyDepth n s p = Some (Inr d)" if "allocated s p" for p
    proof -
      from that obtain a where "p = Some a" "a < length (heap s)"
        by (cases p) (simp_all add: allocated_def)
      with N1 n show ?thesis by simp
    qed
    have imp: "\<exists>b. Imported n s p = Some (Inr b)" if "allocated s p" for p
    proof -
      from that obtain a where "p = Some a" "a < length (heap s)"
        by (cases p) (simp_all add: allocated_def)
      with N2 n show ?thesis by simp
    qed
    have regA: "set (map snd (pkgsByLocation s)) \<subseteq> ?A"
      using reg by (auto simp: registryClosed_def list_all_iff)
    have "\<forall>p\<in>set (map snd (pkgsByLocation s)). \<exists>d. DependencyDepth n s p = Some (Inr d)"
      using regA depth by blast
    moreover have "\<forall>(d, li)\<in>set (pkgsByDependencyDepth s). set li \<subseteq> ?A"
      by (simp add: empty)
    ultimately obtain s1 where s1: "bucketLoop n s (map snd (pkgsByLocation s)) = Some (Inr s1)"
        "heap s1 = heap s" "vendorRelPath s1 = vendorRelPath s"
        "\<forall>(d, li)\<in>set (pkgsByDependencyDepth s1). set li \<subseteq> ?A"
      using bucketLoop_total [OF _ _ regA] by blast
    have alloc1: "allocated s1 = allocated s"
      by (rule ext) (simp add: allocated_def s1(2) split: option.splits)
    have "\<forall>(d, li)\<in>set (pkgsByDependencyDepth s1). list_all (allocated s1) li"
      using s1(4) by (auto simp: list_all_iff alloc1)
    then obtain buckets where bs: "sortLoop srt s1 (pkgsByDependencyDepth s1) = Inr buckets"
        "\<forall>(d, li)\<in>set buckets. list_all (allocated s1) li"
      using sortLoop_total [OF contract] by blast
    define s' where "s' = s1\<lparr>pkgsByDependencyDepth := buckets\<rparr>"
    have run: "sortByDependencyDepth n srt s = Some (Inr s')"
      by (simp add: sortByDependencyDepth_def s1(1) bs(1) s'_def)
    have same: "heap s' = heap s" "vendorRelPath s' = vendorRelPath s"
      by (simp_all add: s'_def s1(2,3))
    obtain k where k: "\<forall>d<k. map_of (pkgsByDependencyDepth s') (int d) \<noteq> None"
        "printPkgs n s' =
           writeAll n s' (concat (map (\<lambda>d. the (map_of (pkgsByDependencyDepth s') (int d))) [0..<k]))"
      using printPkgs_visits by blast
    have "\<exists>rows. Write n s' p = Some (Inr rows)"
      if p: "p \<in> set (concat (map (\<lambda>d. the (map_of (pkgsByDependencyDepth s') (int d))) [0..<k]))"
      for p
    proof -
      from p obtain d where d: "d < k" "p \<in> set (the (map_of (pkgsByDependencyDepth s') (int d)))"
        by auto
      with k(1) obtain li where li: "map_of (pkgsByDependencyDepth s') (int d) = Some li" "p \<in> set li"
        by auto
      then have "(int d, li) \<in> set buckets"
        by (auto simp: s'_def dest: map_of_SomeD)
      with bs(2) li(2) have "allocated s p"
        by (auto simp: list_all_iff alloc1)
      then obtain a where a: "p = Some a" "a < length (heap s)"
        by (cases p) (simp_all add: allocated_def)
      obtain b dd where "Imported n s p = Some (Inr b)" "DependencyDepth n s p = Some (Inr dd)"
        using imp depth \<open>allocated s p\<close> by blast
      then have "\<exists>rows. Write n s p = Some (Inr rows)"
        using Write_total [OF closed a(2)] a(1) by simp
      then show ?thesis by (simp add: Write_cong [OF same])
    qed
    then have "\<exists>rows. writeAll n s'
        (concat (map (\<lambda>d. the (map_of (pkgsByDependencyDepth s') (int d))) [0..<k])) = Some (Inr rows)"
      by (intro writeAll_total) blast
    then obtain rows where "printPkgs n s' = Some (Inr rows)"
      using k(2) by auto
    with run show ?thesis by blast
  qed
  then show ?thesis by blast
qed

text \<open>The buckets of \<open>graphState\<close>.\<close>

lemma graphState_buckets:
  "sortByDependencyDepth 3 insertionSort graphState = Some (Inr graphStateBucketed)"
  by code_simp

subsection \<open>What the report contains\<close>

lemma dependencyLabel_Some:
  "(if \<not> Learned (heap s ! b) \<and> \<not> Predeclared s (heap s ! b)
    then Name s (heap s ! b) @ '' '' @ unlearnedIndicator else Name s (heap s ! b))
   = dependencyLabel s (Some b)"
  by (simp add: dependencyLabel_def nameOf_def unlearnedIndicator_def)

lemma writeRows_later:
  "list_all (allocated s) ds \<Longrightarrow> 0 < i \<Longrightarrow>
     writeRows s f i ds = Inr (map (\<lambda>e. subsequentRows (dependencyLabel s e)) ds)"
proof (induction ds arbitrary: i)
  case Nil
  show ?case by simp
next
  case (Cons p ds)
  then obtain b where b: "p = Some b" by (cases p) (simp_all add: allocated_def)
  have "writeRows s f (i + 1) ds = Inr (map (\<lambda>e. subsequentRows (dependencyLabel s e)) ds)"
    using Cons by simp
  with Cons.prems(2) b show ?case
    by (simp add: Let_def dependencyLabel_Some)
qed

lemma writeRows_first:
  assumes "list_all (allocated s) (p # ds)"
  shows "writeRows s f 0 (p # ds) =
           Inr (f (dependencyLabel s p) # map (\<lambda>e. subsequentRows (dependencyLabel s e)) ds)"
proof -
  from assms obtain b where b: "p = Some b" by (cases p) (simp_all add: allocated_def)
  have "writeRows s f (0 + 1) ds = Inr (map (\<lambda>e. subsequentRows (dependencyLabel s e)) ds)"
    using assms by (intro writeRows_later) simp_all
  with b show ?thesis
    by (simp add: Let_def dependencyLabel_Some)
qed

lemma Write_rows:
  assumes "heapClosed s" "a < length (heap s)"
    and "Imported n s (Some a) = Some (Inr b)" "DependencyDepth n s (Some a) = Some (Inr d)"
  shows "Write n s (Some a) = Some (Inr (packageRows s b d (Some a)))"
proof (cases "Dependencies (heap s ! a)")
  case Nil
  with assms(3,4) show ?thesis
    by (simp add: Write_def packageRows_def Let_def noDependenciesRow_def nameOf_def)
next
  case (Cons p ds)
  have "list_all (allocated s) (p # ds)"
    using heapClosedD(1) [OF assms(1,2)] Cons by simp
  then have "writeRows s (firstRow (Name s (heap s ! a)) d
      (if \<not> b then ''unimported'' else ''imported'')) 0 (p # ds)
      = Inr (firstRow (Name s (heap s ! a)) d (if \<not> b then ''unimported'' else ''imported'')
               (dependencyLabel s p)
             # map (\<lambda>e. subsequentRows (dependencyLabel s e)) ds)"
    by (rule writeRows_first)
  with assms(3,4) Cons show ?thesis
    by (simp add: Write_def packageRows_def Let_def firstRow_def subsequentRows_def nameOf_def)
qed

lemma writeAll_rows:
  "\<forall>p\<in>set ps. Write n s p = Some (Inr (R p)) \<Longrightarrow>
     writeAll n s ps = Some (Inr (concat (map R ps)))"
  by (induction ps) simp_all

lemma bucketLoop_buckets:
  assumes "\<forall>p\<in>set ps. DependencyDepth n s p = Some (Inr (D p))"
  shows "\<exists>s'. bucketLoop n s ps = Some (Inr s') \<and> heap s' = heap s \<and>
           vendorRelPath s' = vendorRelPath s \<and> pkgsByLocation s' = pkgsByLocation s \<and>
           (\<forall>d. map_of (pkgsByDependencyDepth s') d =
                 (if filter (\<lambda>p. D p = d) ps = [] then map_of (pkgsByDependencyDepth s) d
                  else Some ((case map_of (pkgsByDependencyDepth s) d of None \<Rightarrow> [] | Some li \<Rightarrow> li)
                             @ filter (\<lambda>p. D p = d) ps)))"
  using assms
proof (induction ps arbitrary: s)
  case Nil
  then show ?case by simp
next
  case (Cons p ps)
  have d: "DependencyDepth n s p = Some (Inr (D p))"
    using Cons.prems by simp
  define li where "li = (case map_of (pkgsByDependencyDepth s) (D p) of None \<Rightarrow> [] | Some li \<Rightarrow> li)"
  define s1 where "s1 = s\<lparr>pkgsByDependencyDepth :=
      AList.update (D p) (li @ [p]) (pkgsByDependencyDepth s)\<rparr>"
  have same: "heap s1 = heap s" "vendorRelPath s1 = vendorRelPath s"
    and reg: "pkgsByLocation s1 = pkgsByLocation s"
    by (simp_all add: s1_def)
  have m1: "map_of (pkgsByDependencyDepth s1) = (map_of (pkgsByDependencyDepth s))(D p \<mapsto> li @ [p])"
    by (simp add: s1_def update_conv')
  have step: "bucketLoop n s (p # ps) = bucketLoop n s1 ps"
    using d by (simp add: s1_def li_def Let_def)
  have "\<forall>q\<in>set ps. DependencyDepth n s1 q = Some (Inr (D q))"
    using Cons.prems by (simp add: DependencyDepth_cong [OF same])
  from Cons.IH [OF this] obtain s' where s': "bucketLoop n s1 ps = Some (Inr s')"
      "heap s' = heap s1" "vendorRelPath s' = vendorRelPath s1" "pkgsByLocation s' = pkgsByLocation s1"
      "\<forall>d. map_of (pkgsByDependencyDepth s') d =
                 (if filter (\<lambda>p. D p = d) ps = [] then map_of (pkgsByDependencyDepth s1) d
                  else Some ((case map_of (pkgsByDependencyDepth s1) d of None \<Rightarrow> [] | Some li \<Rightarrow> li)
                             @ filter (\<lambda>p. D p = d) ps))"
    by blast
  have "map_of (pkgsByDependencyDepth s') d =
      (if filter (\<lambda>q. D q = d) (p # ps) = [] then map_of (pkgsByDependencyDepth s) d
       else Some ((case map_of (pkgsByDependencyDepth s) d of None \<Rightarrow> [] | Some li \<Rightarrow> li)
                  @ filter (\<lambda>q. D q = d) (p # ps)))" for d
  proof (cases "D p = d")
    case True
    then show ?thesis
      using s'(5) by (auto simp: m1 li_def)
  next
    case False
    then show ?thesis
      using s'(5) by (simp add: m1)
  qed
  with s'(1,2,3,4) step same reg show ?case by simp
qed

lemma sortLoop_map:
  "sortLoop srt s buckets = Inr buckets1 \<Longrightarrow>
     buckets1 = map (\<lambda>(d, li). (d, srt (Less s) li)) buckets"
proof (induction buckets arbitrary: buckets1)
  case Nil
  then show ?case by simp
next
  case (Cons b buckets)
  obtain depth li where b: "b = (depth, li)" by (cases b)
  from Cons.prems b obtain li1 rest1 where r: "Sort srt s li = Inr li1"
      "sortLoop srt s buckets = Inr rest1" "buckets1 = (depth, li1) # rest1"
    by (auto split: sum.splits)
  from r(1) have "li1 = srt (Less s) li"
    by (auto simp: Sort_def split: if_splits)
  with Cons.IH [OF r(2)] r(3) b show ?case by simp
qed

lemma sortLoop_lookup:
  assumes "sortLoop srt s buckets = Inr buckets1"
  shows "map_of buckets1 d = map_option (srt (Less s)) (map_of buckets d)"
  unfolding sortLoop_map [OF assms] by (simp add: map_of_map)

text \<open>
  On the example, the rows of the packages of the buckets \<open>0\<close> and \<open>1\<close>: \<open>internal/x\<close> is
  internal and not imported and has no row, and \<open>a\<close> has one row for each dependency.
\<close>

lemma graphState_bucketsUpTo:
  "bucketsUpTo graphStateBucketed 2 = [Some 1, Some 2, Some 4, Some 0]"
  by code_simp

lemma graphState_packageRows:
  "packageRows graphState True 0 (Some 1) = [firstRow ''b'' 0 ''imported'' ''unsafe''] \<and>
   packageRows graphState True 0 (Some 2) = [firstRow ''golang_org/x/net'' 0 ''imported'' ''unsafe''] \<and>
   packageRows graphState False 0 (Some 4) = [] \<and>
   packageRows graphState False 1 (Some 0) =
     [firstRow ''a'' 1 ''unimported'' ''b *'', subsequentRows ''golang_org/x/net *'']"
  by code_simp

text \<open>
  C8. On a closed heap with acyclic graphs, a registry of allocated packages and an
  empty bucket map, \<open>sortByDependencyDepth\<close> and then \<open>printPkgs\<close> return for every large
  enough bound on the nesting of calls. Afterwards the bucket of a depth \<open>d\<close> exists
  exactly when some registered package has the depth \<open>d\<close>, and it then holds exactly the
  registered packages of that depth, sorted by display name. The rows printed are the
  rows of the packages of the buckets \<open>0, 1, \<dots>, k - 1\<close>, bucket after bucket and each
  bucket in the order of its list, where \<open>k\<close> is the first depth from \<open>0\<close> upwards that no
  registered package has: nothing of a depth after a gap is printed, and no package
  printed is learned or predeclared, these being the packages of the bucket \<open>-1\<close>.
\<close>

theorem printPkgs_order:
  assumes "sortContract srt" and "heapClosed s"
    and "acyclic (dependencyGraph s)" and "acyclic (dependantGraph s)"
    and "registryClosed s" and "pkgsByDependencyDepth s = []"
  shows "\<exists>D N.
           (\<forall>a<length (heap s). DependencyDepthReturns s (Some a) (D a)) \<and>
           (\<forall>n\<ge>N. \<exists>s' rows k.
              sortByDependencyDepth n srt s = Some (Inr s') \<and>
              heap s' = heap s \<and>
              (\<forall>d. (registeredAtDepth s D d = [] \<longrightarrow>
                      map_of (pkgsByDependencyDepth s') d = None) \<and>
                   (registeredAtDepth s D d \<noteq> [] \<longrightarrow>
                      (\<exists>li. map_of (pkgsByDependencyDepth s') d = Some li \<and>
                            mset li = mset (registeredAtDepth s D d) \<and>
                            sorted (map (nameOf s) li)))) \<and>
              (\<forall>d<k. registeredAtDepth s D (int d) \<noteq> []) \<and>
              registeredAtDepth s D (int k) = [] \<and>
              printPkgs n s' = Some (Inr rows) \<and>
              rows = concat (map (\<lambda>p. packageRows s (reachesNonInternal s (the p)) (D (the p)) p)
                               (bucketsUpTo s' k)) \<and>
              list_all (\<lambda>p. \<not> Learned (heap s ! the p) \<and> \<not> Predeclared s (heap s ! the p))
                (bucketsUpTo s' k))"
proof -
  let ?regs = "map snd (pkgsByLocation s)"
  have "\<forall>a. \<exists>d. a < length (heap s) \<longrightarrow> DependencyDepthReturns s (Some a) d"
    using DependencyDepth_total [OF assms(2,3)] by blast
  then obtain D where D: "\<forall>a<length (heap s). DependencyDepthReturns s (Some a) (D a)"
    by metis
  have "\<forall>a<length (heap s). \<exists>N. \<forall>n\<ge>N. DependencyDepth n s (Some a) = Some (Inr (D a))"
    using D unfolding DependencyDepthReturns_def by blast
  then obtain N1 where N1: "\<forall>a<length (heap s). \<forall>n\<ge>N1.
      DependencyDepth n s (Some a) = Some (Inr (D a))"
    using uniform_bound [of "length (heap s)" "\<lambda>a n. DependencyDepth n s (Some a) = Some (Inr (D a))"]
    by blast
  have "\<forall>a<length (heap s). \<exists>N. \<forall>n\<ge>N. Imported n s (Some a) = Some (Inr (reachesNonInternal s a))"
    using Imported_reaches [OF assms(2,4)] unfolding ImportedReturns_def by blast
  then obtain N2 where N2: "\<forall>a<length (heap s). \<forall>n\<ge>N2.
      Imported n s (Some a) = Some (Inr (reachesNonInternal s a))"
    using uniform_bound [of "length (heap s)"
        "\<lambda>a n. Imported n s (Some a) = Some (Inr (reachesNonInternal s a))"]
    by blast
  have regs: "p \<in> set ?regs \<Longrightarrow> allocated s p" for p
    using assms(5) by (auto simp: registryClosed_def list_all_iff)
  have main: "\<exists>s' rows k.
              sortByDependencyDepth n srt s = Some (Inr s') \<and>
              heap s' = heap s \<and>
              (\<forall>d. (registeredAtDepth s D d = [] \<longrightarrow>
                      map_of (pkgsByDependencyDepth s') d = None) \<and>
                   (registeredAtDepth s D d \<noteq> [] \<longrightarrow>
                      (\<exists>li. map_of (pkgsByDependencyDepth s') d = Some li \<and>
                            mset li = mset (registeredAtDepth s D d) \<and>
                            sorted (map (nameOf s) li)))) \<and>
              (\<forall>d<k. registeredAtDepth s D (int d) \<noteq> []) \<and>
              registeredAtDepth s D (int k) = [] \<and>
              printPkgs n s' = Some (Inr rows) \<and>
              rows = concat (map (\<lambda>p. packageRows s (reachesNonInternal s (the p)) (D (the p)) p)
                               (bucketsUpTo s' k)) \<and>
              list_all (\<lambda>p. \<not> Learned (heap s ! the p) \<and> \<not> Predeclared s (heap s ! the p))
                (bucketsUpTo s' k)"
    if n: "max N1 N2 \<le> n" for n
  proof -
    have depth: "DependencyDepth n s p = Some (Inr (D (the p)))" if "allocated s p" for p
    proof -
      from that obtain a where "p = Some a" "a < length (heap s)"
        by (cases p) (simp_all add: allocated_def)
      with N1 n show ?thesis by simp
    qed
    have imp: "Imported n s p = Some (Inr (reachesNonInternal s (the p)))" if "allocated s p" for p
    proof -
      from that obtain a where "p = Some a" "a < length (heap s)"
        by (cases p) (simp_all add: allocated_def)
      with N2 n show ?thesis by simp
    qed
    have "\<forall>p\<in>set ?regs. DependencyDepth n s p = Some (Inr (D (the p)))"
      using regs depth by blast
    from bucketLoop_buckets [OF this]
    obtain s1 where s1: "bucketLoop n s ?regs = Some (Inr s1)" "heap s1 = heap s"
        "vendorRelPath s1 = vendorRelPath s"
        "\<forall>d. map_of (pkgsByDependencyDepth s1) d =
           (if registeredAtDepth s D d = [] then None else Some (registeredAtDepth s D d))"
      by (auto simp: assms(6) registeredAtDepth_def)
    have alloc1: "allocated s1 = allocated s"
      by (rule ext) (simp add: allocated_def s1(2) split: option.splits)
    have "\<forall>(d, li)\<in>set (pkgsByDependencyDepth s1). set li \<subseteq> {p. allocated s p}"
    proof -
      have "\<forall>p\<in>set ?regs. \<exists>d. DependencyDepth n s p = Some (Inr d)"
        using regs depth by blast
      moreover have "\<forall>(d, li)\<in>set (pkgsByDependencyDepth s). set li \<subseteq> {p. allocated s p}"
        by (simp add: assms(6))
      moreover have "set ?regs \<subseteq> {p. allocated s p}"
        using regs by blast
      ultimately obtain s2 where "bucketLoop n s ?regs = Some (Inr s2)"
          "\<forall>(d, li)\<in>set (pkgsByDependencyDepth s2). set li \<subseteq> {p. allocated s p}"
        using bucketLoop_total [of ?regs n s "{p. allocated s p}"] by blast
      with s1(1) show ?thesis by simp
    qed
    then have "\<forall>(d, li)\<in>set (pkgsByDependencyDepth s1). list_all (allocated s1) li"
      by (auto simp: list_all_iff alloc1)
    then obtain buckets where bs: "sortLoop srt s1 (pkgsByDependencyDepth s1) = Inr buckets"
      using sortLoop_total [OF assms(1)] by blast
    define s' where "s' = s1\<lparr>pkgsByDependencyDepth := buckets\<rparr>"
    have run: "sortByDependencyDepth n srt s = Some (Inr s')"
      by (simp add: sortByDependencyDepth_def s1(1) bs s'_def)
    have same: "heap s' = heap s" "vendorRelPath s' = vendorRelPath s"
      by (simp_all add: s'_def s1(2,3))
    have names1: "nameOf s1 = nameOf s"
      using s1(2,3) by (rule nameOf_cong)
    have look: "map_of (pkgsByDependencyDepth s') d =
        (if registeredAtDepth s D d = [] then None
         else Some (srt (\<lambda>p q. nameOf s p < nameOf s q) (registeredAtDepth s D d)))" for d
      using sortLoop_lookup [OF bs, of d] s1(4)
      by (simp add: s'_def Less_nameOf names1)
    have perm: "mset (srt (\<lambda>p q. nameOf s p < nameOf s q) li) = mset li"
      and srtd: "sorted (map (nameOf s) (srt (\<lambda>p q. nameOf s p < nameOf s q) li))" for li
      using assms(1) unfolding sortContract_def by blast+
    have buckets_ok: "\<forall>d. (registeredAtDepth s D d = [] \<longrightarrow>
                      map_of (pkgsByDependencyDepth s') d = None) \<and>
                   (registeredAtDepth s D d \<noteq> [] \<longrightarrow>
                      (\<exists>li. map_of (pkgsByDependencyDepth s') d = Some li \<and>
                            mset li = mset (registeredAtDepth s D d) \<and>
                            sorted (map (nameOf s) li)))"
      using look perm srtd by simp
    obtain k where k: "\<forall>d<k. map_of (pkgsByDependencyDepth s') (int d) \<noteq> None"
        "map_of (pkgsByDependencyDepth s') (int k) = None"
        "printPkgs n s' = writeAll n s' (bucketsUpTo s' k)"
      using printPkgs_visits [of s' n] unfolding bucketsUpTo_def by blast
    have k1: "\<forall>d<k. registeredAtDepth s D (int d) \<noteq> []"
      using k(1) look by (metis (full_types))
    have k2: "registeredAtDepth s D (int k) = []"
      using k(2) look by (metis option.distinct(1))
    have visited: "allocated s p \<and> 0 \<le> D (the p)" if "p \<in> set (bucketsUpTo s' k)" for p
    proof -
      from that obtain d where d: "d < k" "p \<in> set (the (map_of (pkgsByDependencyDepth s') (int d)))"
        by (auto simp: bucketsUpTo_def)
      with k1 look have "p \<in> set (srt (\<lambda>p q. nameOf s p < nameOf s q) (registeredAtDepth s D (int d)))"
        by simp
      then have "p \<in> set (registeredAtDepth s D (int d))"
        using perm mset_eq_setD by blast
      then have "p \<in> set ?regs" "D (the p) = int d"
        by (simp_all add: registeredAtDepth_def)
      with regs show ?thesis by simp
    qed
    have "\<forall>p\<in>set (bucketsUpTo s' k).
        Write n s' p = Some (Inr (packageRows s (reachesNonInternal s (the p)) (D (the p)) p))"
    proof
      fix p assume "p \<in> set (bucketsUpTo s' k)"
      then have al: "allocated s p" using visited by blast
      then obtain a where a: "p = Some a" "a < length (heap s)"
        by (cases p) (simp_all add: allocated_def)
      have "Write n s (Some a) = Some (Inr (packageRows s (reachesNonInternal s a) (D a) (Some a)))"
        using Write_rows [OF assms(2) a(2)] imp [OF al] depth [OF al] a(1) by simp
      then show "Write n s' p = Some (Inr (packageRows s (reachesNonInternal s (the p)) (D (the p)) p))"
        using a(1) by (simp add: Write_cong [OF same])
    qed
    then have rows: "printPkgs n s' = Some (Inr (concat (map
        (\<lambda>p. packageRows s (reachesNonInternal s (the p)) (D (the p)) p) (bucketsUpTo s' k))))"
      using writeAll_rows k(3) by simp
    have nonterm: "list_all (\<lambda>p. \<not> Learned (heap s ! the p) \<and> \<not> Predeclared s (heap s ! the p))
        (bucketsUpTo s' k)"
      unfolding list_all_iff
    proof
      fix p assume p: "p \<in> set (bucketsUpTo s' k)"
      have "allocated s p" using visited [OF p] by simp
      then obtain a where a: "p = Some a" "a < length (heap s)"
        by (cases p) (simp_all add: allocated_def)
      have "0 \<le> D a" using visited [OF p] a(1) by simp
      moreover have "D a = - 1 \<longleftrightarrow> terminal s (heap s ! a)"
        using D a(2) DependencyDepthReturns_terminal_iff by blast
      ultimately have "\<not> terminal s (heap s ! a)" by auto
      with a(1) show "\<not> Learned (heap s ! the p) \<and> \<not> Predeclared s (heap s ! the p)"
        by (simp add: terminal_def)
    qed
    from run same(1) buckets_ok k1 k2 rows nonterm show ?thesis by blast
  qed
  show ?thesis
    using D main by blast
qed

theorem printPkgs_order_witness:
  "sortContract insertionSort \<and> heapClosed graphState \<and>
   acyclic (dependencyGraph graphState) \<and> acyclic (dependantGraph graphState) \<and>
   registryClosed graphState \<and> pkgsByDependencyDepth graphState = [] \<and>
   (\<exists>D N.
      (\<forall>a<length (heap graphState). DependencyDepthReturns graphState (Some a) (D a)) \<and>
      (\<forall>n\<ge>N. \<exists>s' rows k.
         sortByDependencyDepth n insertionSort graphState = Some (Inr s') \<and>
         heap s' = heap graphState \<and>
         (\<forall>d. (registeredAtDepth graphState D d = [] \<longrightarrow>
                 map_of (pkgsByDependencyDepth s') d = None) \<and>
              (registeredAtDepth graphState D d \<noteq> [] \<longrightarrow>
                 (\<exists>li. map_of (pkgsByDependencyDepth s') d = Some li \<and>
                       mset li = mset (registeredAtDepth graphState D d) \<and>
                       sorted (map (nameOf graphState) li)))) \<and>
         (\<forall>d<k. registeredAtDepth graphState D (int d) \<noteq> []) \<and>
         registeredAtDepth graphState D (int k) = [] \<and>
         printPkgs n s' = Some (Inr rows) \<and>
         rows = concat (map (\<lambda>p. packageRows graphState
                                   (reachesNonInternal graphState (the p)) (D (the p)) p)
                          (bucketsUpTo s' k)) \<and>
         list_all (\<lambda>p. \<not> Learned (heap graphState ! the p) \<and>
                        \<not> Predeclared graphState (heap graphState ! the p))
           (bucketsUpTo s' k)))"
proof -
  have reg: "registryClosed graphState"
    by (simp add: registryClosed_def allocated_def graphState_def)
  have empty: "pkgsByDependencyDepth graphState = []"
    by (simp add: graphState_def)
  from printPkgs_order [OF insertionSort_contract graphState_closed graphState_acyclic
      graphState_acyclic_dependants reg empty]
    insertionSort_contract graphState_closed graphState_acyclic graphState_acyclic_dependants
    reg empty
  show ?thesis by blast
qed

end
